theory Spec2Isabelle
  imports Complex_Main "HOL-Library.Monad_Syntax"
begin

section \<open>Python exceptions\<close>

text \<open>
  The exceptions that the modelled functions can raise. A function that may raise returns
  a sum: \<open>Inl e\<close> is the raised exception, \<open>Inr v\<close> the returned value.
\<close>

datatype py_error =
    ValueError
  | KeyError
  | JSONDecodeError
  | TypeError
  | OSError
  | OverflowError
  | OtherError string

section \<open>Shortcode decoding (api.py, constants.py)\<close>

definition SHORTCODE_ALPHABET :: string where
  "SHORTCODE_ALPHABET =
     ''ABCDEFGHIJKLMNOPQRSTUVWXYZabcdefghijklmnopqrstuvwxyz0123456789-_''"

text \<open>
  Python's \<open>s.index(c)\<close> for a one-character \<open>c\<close>: the position of the first occurrence,
  \<open>ValueError\<close> (here \<open>None\<close>) when there is none.
\<close>

fun str_index :: "string \<Rightarrow> char \<Rightarrow> nat option" where
  "str_index [] c = None"
| "str_index (x # xs) c = (if x = c then Some 0 else map_option Suc (str_index xs c))"

text \<open>
  The body of the \<open>for char in code\<close> loop of \<open>shortcode_to_media_pk\<close>, with the
  accumulator \<open>pk\<close> as an argument. Python integers are unbounded: \<open>int\<close>.
\<close>

fun pk_loop :: "int \<Rightarrow> string \<Rightarrow> py_error + int" where
  "pk_loop pk [] = Inr pk"
| "pk_loop pk (char # rest) =
     (case str_index SHORTCODE_ALPHABET char of
        None \<Rightarrow> Inl ValueError
      | Some i \<Rightarrow> pk_loop (pk * 64 + int i) rest)"

definition shortcode_to_media_pk :: "string \<Rightarrow> py_error + int" where
  "shortcode_to_media_pk code = pk_loop 0 code"

text \<open>
  The accumulation in the words of the specification,
  \<open>value = value*64 + alphabet.index(char)\<close> for each character from left to right,
  to be compared with the loop above. It is meaningful on characters of the alphabet only.
\<close>

definition spec_accumulate :: "string \<Rightarrow> int" where
  "spec_accumulate code =
     foldl (\<lambda>value char. value * 64 + int (the (str_index SHORTCODE_ALPHABET char))) 0 code"

text \<open>Codes that do not begin with the character of index 0.\<close>

definition no_leading_A :: "string \<Rightarrow> bool" where
  "no_leading_A code = (case code of [] \<Rightarrow> True | c # _ \<Rightarrow> c \<noteq> CHR ''A'')"

section \<open>Python dictionaries with a fixed set of keys\<close>

text \<open>
  Posts and users travel through the program as Python dictionaries. Each key of such a
  dictionary is in one of three states: absent, present with the value \<open>None\<close>, or
  present with a value. The value of a key has the type that the feed delivers for it.
  A value that may be \<open>None\<close> (and a column that may be \<open>NULL\<close>) is an \<open>option\<close>.
\<close>

datatype 'a field = Absent | Null | Val 'a

text \<open>\<open>d.get(k)\<close>: \<open>None\<close> when the key is absent.\<close>

fun get :: "'a field \<Rightarrow> 'a option" where
  "get Absent = None"
| "get Null = None"
| "get (Val v) = Some v"

text \<open>\<open>d.get(k, default)\<close>: the default replaces an absent key only, not a \<open>None\<close> value.\<close>

fun get_default :: "'a field \<Rightarrow> 'a \<Rightarrow> 'a option" where
  "get_default Absent d = Some d"
| "get_default Null d = None"
| "get_default (Val v) d = Some v"

text \<open>\<open>d[k]\<close>: \<open>KeyError\<close> (here \<open>None\<close>) when the key is absent.\<close>

fun subscript :: "'a field \<Rightarrow> 'a option option" where
  "subscript Absent = None"
| "subscript Null = Some None"
| "subscript (Val v) = Some (Some v)"

text \<open>The entry \<open>k: v\<close> of a dictionary display, where \<open>v\<close> may be \<open>None\<close>.\<close>

fun entry :: "'a option \<Rightarrow> 'a field" where
  "entry None = Null"
| "entry (Some v) = Val v"

text \<open>
  The post dictionary built by \<open>parse_media\<close>, with the keys that the scraper and the
  storage backends read. \<open>storage_url\<close> and \<open>local_image_path\<close> are added by
  \<open>scrape_hashtag\<close>.
\<close>

record post =
  p_code :: "string field"
  p_username :: "string field"
  p_full_name :: "string field"
  p_is_verified :: "bool field"
  p_caption :: "string field"
  p_hashtags :: "string list field"
  p_image_url :: "string field"
  p_local_image_path :: "string field"
  p_storage_url :: "string field"
  p_media_type :: "int field"
  p_likes :: "int field"
  p_comments_count :: "int field"
  p_views :: "int field"
  p_location_name :: "string field"
  p_location_lat :: "real field"
  p_location_lng :: "real field"
  p_posted_at :: "string field"
  p_word_count :: "int field"

text \<open>
  The user dictionary: the minimal one built by \<open>scrape_hashtag\<close> has the keys
  \<open>username\<close>, \<open>full_name\<close> and \<open>is_verified\<close>; the one returned by
  \<open>fetch_user_profile\<close> has all of them.
\<close>

record user =
  u_username :: "string field"
  u_full_name :: "string field"
  u_bio :: "string field"
  u_followers :: "int field"
  u_following :: "int field"
  u_post_count :: "int field"
  u_is_verified :: "bool field"
  u_is_private :: "bool field"
  u_profile_pic_url :: "string field"

section \<open>SQLite storage (storage/sqlite_store.py)\<close>

text \<open>
  A table is the list of its rows in insertion order; \<open>None\<close> is \<open>NULL\<close>. The column
  \<open>hashtags\<close> holds the text \<open>json.dumps\<close> of the list; the model keeps the list itself
  (\<open>None\<close> stands for the text \<open>null\<close>). The column \<open>scraped_at\<close> is filled by the
  database clock on insert and written by no statement of the program; it is left out,
  as is the comments table, which none of the operations below reads or writes.

  The database engine can reject a statement (a locked or full database file):
  \<open>execute\<close> or \<open>commit\<close> then raises \<open>sqlite3.Error\<close>. Which statements it rejects is not
  up to the program: \<open>faults k\<close> says whether the statement number \<open>k\<close> sent over the
  connection is rejected, and \<open>executed\<close> counts the statements sent so far. A rejected
  statement is taken to leave the tables as they were.
\<close>

record post_row =
  r_code :: "string option"
  r_username :: "string option"
  r_caption :: "string option"
  r_hashtags :: "string list option"
  r_image_url :: "string option"
  r_local_image_path :: "string option"
  r_media_type :: "int option"
  r_likes :: "int option"
  r_comments_count :: "int option"
  r_views :: "int option"
  r_location_name :: "string option"
  r_location_lat :: "real option"
  r_location_lng :: "real option"
  r_posted_at :: "string option"
  r_word_count :: "int option"

record user_row =
  ur_username :: "string option"
  ur_full_name :: "string option"
  ur_bio :: "string option"
  ur_followers :: "int option"
  ur_following :: "int option"
  ur_post_count :: "int option"
  ur_is_verified :: "bool option"
  ur_is_private :: "bool option"
  ur_profile_pic_url :: "string option"

record sqlite_db =
  posts :: "post_row list"
  users :: "user_row list"
  img_dir :: string
  executed :: nat
  faults :: "nat \<Rightarrow> bool"

text \<open>
  An integer parameter outside the signed 64-bit range cannot be bound: \<open>sqlite3\<close> raises
  \<open>OverflowError\<close>, which is no \<open>sqlite3.Error\<close>.
\<close>

definition int64 :: "int option \<Rightarrow> bool" where
  "int64 v = (case v of None \<Rightarrow> True | Some i \<Rightarrow> - (2 ^ 63) \<le> i \<and> i < 2 ^ 63)"

text \<open>The tuple of parameters bound to the \<open>INSERT INTO posts\<close> statement.\<close>

definition post_values :: "post \<Rightarrow> post_row" where
  "post_values p =
     \<lparr> r_code = get (p_code p),
       r_username = get (p_username p),
       r_caption = get_default (p_caption p) '''',
       r_hashtags = get_default (p_hashtags p) [],
       r_image_url = get (p_image_url p),
       r_local_image_path = get (p_local_image_path p),
       r_media_type = get_default (p_media_type p) 1,
       r_likes = get_default (p_likes p) 0,
       r_comments_count = get_default (p_comments_count p) 0,
       r_views = get (p_views p),
       r_location_name = get (p_location_name p),
       r_location_lat = get (p_location_lat p),
       r_location_lng = get (p_location_lng p),
       r_posted_at = get (p_posted_at p),
       r_word_count = get_default (p_word_count p) 0 \<rparr>"

text \<open>
  \<open>ON CONFLICT(code)\<close>: a stored row conflicts with the new one when both have the same
  non-\<open>NULL\<close> code. (SQLite lets a \<open>TEXT PRIMARY KEY\<close> be \<open>NULL\<close>, and \<open>NULL\<close>s never
  conflict.)
\<close>

definition post_conflict :: "post_row \<Rightarrow> post_row \<Rightarrow> bool" where
  "post_conflict excluded old \<longleftrightarrow> r_code excluded \<noteq> None \<and> r_code old = r_code excluded"

text \<open>\<open>DO UPDATE SET likes=excluded.likes, comments_count=..., views=...\<close>\<close>

definition post_do_update :: "post_row \<Rightarrow> post_row \<Rightarrow> post_row" where
  "post_do_update excluded old =
     old\<lparr> r_likes := r_likes excluded,
          r_comments_count := r_comments_count excluded,
          r_views := r_views excluded \<rparr>"

text \<open>What the executed statement \<open>INSERT INTO posts ... ON CONFLICT(code) DO UPDATE\<close> does to the table.\<close>

definition posts_statement :: "post_row list \<Rightarrow> post_row \<Rightarrow> post_row list" where
  "posts_statement rows excluded =
     (if \<exists>old \<in> set rows. post_conflict excluded old
      then map (\<lambda>old. if post_conflict excluded old then post_do_update excluded old else old) rows
      else rows @ [excluded])"

definition bindable_post :: "post_row \<Rightarrow> bool" where
  "bindable_post row \<longleftrightarrow>
     int64 (r_media_type row) \<and> int64 (r_likes row) \<and> int64 (r_comments_count row)
     \<and> int64 (r_views row) \<and> int64 (r_word_count row)"

text \<open>
  \<open>SQLiteStorage.upsert_post\<close>: \<open>OverflowError\<close> on a parameter that cannot be bound;
  \<open>False\<close>, after the warning is logged, when the engine rejects the statement
  (\<open>except sqlite3.Error\<close>); otherwise the statement is executed and committed and the
  result is \<open>True\<close>.
\<close>

definition sqlite_upsert_post :: "sqlite_db \<Rightarrow> post \<Rightarrow> py_error + bool \<times> sqlite_db" where
  "sqlite_upsert_post db p =
     (let excluded = post_values p in
      if \<not> bindable_post excluded then Inl OverflowError
      else if faults db (executed db) then Inr (False, db\<lparr>executed := Suc (executed db)\<rparr>)
      else Inr (True, db\<lparr>posts := posts_statement (posts db) excluded,
                          executed := Suc (executed db)\<rparr>))"

text \<open>The tuple of parameters bound to the \<open>INSERT INTO users\<close> statement.\<close>

definition user_values :: "user \<Rightarrow> user_row" where
  "user_values u =
     \<lparr> ur_username = get (u_username u),
       ur_full_name = get_default (u_full_name u) '''',
       ur_bio = get (u_bio u),
       ur_followers = get (u_followers u),
       ur_following = get (u_following u),
       ur_post_count = get (u_post_count u),
       ur_is_verified = get_default (u_is_verified u) False,
       ur_is_private = get_default (u_is_private u) False,
       ur_profile_pic_url = get (u_profile_pic_url u) \<rparr>"

definition user_conflict :: "user_row \<Rightarrow> user_row \<Rightarrow> bool" where
  "user_conflict excluded old \<longleftrightarrow>
     ur_username excluded \<noteq> None \<and> ur_username old = ur_username excluded"

text \<open>SQL's \<open>COALESCE(a, b)\<close>: the first argument that is not \<open>NULL\<close>.\<close>

fun COALESCE :: "'a option \<Rightarrow> 'a option \<Rightarrow> 'a option" where
  "COALESCE None b = b"
| "COALESCE (Some v) b = Some v"

text \<open>
  \<open>DO UPDATE SET full_name=COALESCE(excluded.full_name, users.full_name), ...,
  is_verified=excluded.is_verified, ...\<close>; \<open>is_private\<close> is not in the list.
\<close>

definition user_do_update :: "user_row \<Rightarrow> user_row \<Rightarrow> user_row" where
  "user_do_update excluded old =
     old\<lparr> ur_full_name := COALESCE (ur_full_name excluded) (ur_full_name old),
          ur_bio := COALESCE (ur_bio excluded) (ur_bio old),
          ur_followers := COALESCE (ur_followers excluded) (ur_followers old),
          ur_following := COALESCE (ur_following excluded) (ur_following old),
          ur_post_count := COALESCE (ur_post_count excluded) (ur_post_count old),
          ur_is_verified := ur_is_verified excluded,
          ur_profile_pic_url :=
            COALESCE (ur_profile_pic_url excluded) (ur_profile_pic_url old) \<rparr>"

text \<open>What the executed statement \<open>INSERT INTO users ... ON CONFLICT(username) DO UPDATE\<close> does to the table.\<close>

definition users_statement :: "user_row list \<Rightarrow> user_row \<Rightarrow> user_row list" where
  "users_statement rows excluded =
     (if \<exists>old \<in> set rows. user_conflict excluded old
      then map (\<lambda>old. if user_conflict excluded old then user_do_update excluded old else old) rows
      else rows @ [excluded])"

definition bindable_user :: "user_row \<Rightarrow> bool" where
  "bindable_user row \<longleftrightarrow>
     int64 (ur_followers row) \<and> int64 (ur_following row) \<and> int64 (ur_post_count row)"

text \<open>\<open>SQLiteStorage.upsert_user\<close>, with the same three ways out as \<open>upsert_post\<close>.\<close>

definition sqlite_upsert_user :: "sqlite_db \<Rightarrow> user \<Rightarrow> py_error + bool \<times> sqlite_db" where
  "sqlite_upsert_user db u =
     (let excluded = user_values u in
      if \<not> bindable_user excluded then Inl OverflowError
      else if faults db (executed db) then Inr (False, db\<lparr>executed := Suc (executed db)\<rparr>)
      else Inr (True, db\<lparr>users := users_statement (users db) excluded,
                          executed := Suc (executed db)\<rparr>))"

text \<open>\<open>SELECT code FROM posts\<close>, as a Python set (a \<open>NULL\<close> code is the member \<open>None\<close>).\<close>

definition sqlite_get_existing_codes :: "sqlite_db \<Rightarrow> string option set" where
  "sqlite_get_existing_codes db = set (map r_code (posts db))"

text \<open>\<open>SELECT username FROM users WHERE followers IS NOT NULL\<close>\<close>

definition sqlite_get_enriched_users :: "sqlite_db \<Rightarrow> string option set" where
  "sqlite_get_enriched_users db =
     set (map ur_username (filter (\<lambda>r. ur_followers r \<noteq> None) (users db)))"

text \<open>\<open>SELECT COUNT(*) FROM posts\<close>\<close>

definition sqlite_get_post_count :: "sqlite_db \<Rightarrow> int" where
  "sqlite_get_post_count db = int (length (posts db))"



text \<open>
  The minimal user record that \<open>scrape_hashtag\<close> upserts for the author of a post:
  \<open>{"username": username, "full_name": post.get("full_name", ""),
  "is_verified": post.get("is_verified", False)}\<close>.
\<close>

definition minimal_user :: "string \<Rightarrow> post \<Rightarrow> user" where
  "minimal_user username post =
     \<lparr> u_username = Val username,
       u_full_name = entry (get_default (p_full_name post) ''''),
       u_bio = Absent,
       u_followers = Absent,
       u_following = Absent,
       u_post_count = Absent,
       u_is_verified = entry (get_default (p_is_verified post) False),
       u_is_private = Absent,
       u_profile_pic_url = Absent \<rparr>"

text \<open>
  Example data: an empty database whose engine rejects nothing, a parsed post and an
  enriched profile.
\<close>

definition empty_db :: sqlite_db where
  "empty_db = \<lparr> posts = [], users = [], img_dir = ''images'', executed = 0,
                faults = (\<lambda>k. False) \<rparr>"

definition post_abc :: post where
  "post_abc =
     \<lparr> p_code = Val ''CxR2a4Nv3'',
       p_username = Val ''alice'',
       p_full_name = Val '''',
       p_is_verified = Val False,
       p_caption = Val ''Great Wall #beijing'',
       p_hashtags = Val [''#beijing''],
       p_image_url = Val ''https://cdn.example/1.jpg'',
       p_local_image_path = Absent,
       p_storage_url = Absent,
       p_media_type = Val 1,
       p_likes = Val 10,
       p_comments_count = Val 2,
       p_views = Null,
       p_location_name = Val ''Beijing'',
       p_location_lat = Null,
       p_location_lng = Null,
       p_posted_at = Val ''2024-05-01T10:00:00'',
       p_word_count = Val 3 \<rparr>"


section \<open>JSON file storage (storage/json_store.py)\<close>

text \<open>
  The buffers \<open>_posts\<close> and \<open>_users\<close>, the set \<open>_existing_codes\<close>, and the files
  written to the output directory so far, each file being the list of records dumped
  into it. (File names carry a timestamp; the model keeps the files in the order they
  were written.) The comment buffer is left out with the comments.
\<close>

record json_storage =
  js_posts :: "post list"
  js_users :: "user list"
  js_existing_codes :: "string option set"
  js_post_files :: "post list list"
  js_user_files :: "user list list"

text \<open>
  \<open>__init__\<close> and \<open>_load_existing\<close>, given the \<open>posts_*.json\<close> files found in the
  output directory: the codes of their posts that are neither \<open>None\<close> nor empty.
\<close>

definition load_existing :: "post list list \<Rightarrow> string option set" where
  "load_existing files =
     {get (p_code p) | p. p \<in> set (concat files)
                         \<and> get (p_code p) \<noteq> None \<and> get (p_code p) \<noteq> Some ''''}"

definition json_init :: "post list list \<Rightarrow> json_storage" where
  "json_init files =
     \<lparr> js_posts = [], js_users = [], js_existing_codes = load_existing files,
       js_post_files = files, js_user_files = [] \<rparr>"

definition flush_posts :: "json_storage \<Rightarrow> json_storage" where
  "flush_posts js =
     (if js_posts js = [] then js
      else js\<lparr>js_post_files := js_post_files js @ [js_posts js], js_posts := []\<rparr>)"

definition flush_users :: "json_storage \<Rightarrow> json_storage" where
  "flush_users js =
     (if js_users js = [] then js
      else js\<lparr>js_user_files := js_user_files js @ [js_users js], js_users := []\<rparr>)"

definition json_upsert_post :: "json_storage \<Rightarrow> post \<Rightarrow> bool \<times> json_storage" where
  "json_upsert_post js post =
     (let js1 = js\<lparr>js_posts := js_posts js @ [post]\<rparr>;
          js2 = js1\<lparr>js_existing_codes :=
                        insert (get_default (p_code post) '''') (js_existing_codes js1)\<rparr>
      in (True, if length (js_posts js2) \<ge> 100 then flush_posts js2 else js2))"

definition json_upsert_user :: "json_storage \<Rightarrow> user \<Rightarrow> bool \<times> json_storage" where
  "json_upsert_user js u =
     (let js1 = js\<lparr>js_users := js_users js @ [u]\<rparr>
      in (True, if length (js_users js1) \<ge> 100 then flush_users js1 else js1))"

definition json_get_existing_codes :: "json_storage \<Rightarrow> string option set" where
  "json_get_existing_codes js = js_existing_codes js"

definition json_get_enriched_users :: "json_storage \<Rightarrow> string option set" where
  "json_get_enriched_users js = {}"


text \<open>\<open>len(self._existing_codes) + len(self._posts)\<close>\<close>

definition json_get_post_count :: "json_storage \<Rightarrow> int" where
  "json_get_post_count js = int (card (js_existing_codes js)) + int (length (js_posts js))"

section \<open>The storage port (storage/base.py, storage/\_\_init\_\_.py)\<close>

text \<open>
  \<open>get_storage\<close> selects the backend; the scraper and the daemon call its methods
  through the interface \<open>StorageBackend\<close>. The Supabase backend keeps its state in a
  remote service reached over HTTP and is not modelled.
\<close>

datatype storage = SQLiteStorage sqlite_db | JSONStorage json_storage

fun upsert_post :: "storage \<Rightarrow> post \<Rightarrow> py_error + bool \<times> storage" where
  "upsert_post (SQLiteStorage db) p =
     map_sum id (map_prod id SQLiteStorage) (sqlite_upsert_post db p)"
| "upsert_post (JSONStorage js) p = Inr (map_prod id JSONStorage (json_upsert_post js p))"

fun upsert_user :: "storage \<Rightarrow> user \<Rightarrow> py_error + bool \<times> storage" where
  "upsert_user (SQLiteStorage db) u =
     map_sum id (map_prod id SQLiteStorage) (sqlite_upsert_user db u)"
| "upsert_user (JSONStorage js) u = Inr (map_prod id JSONStorage (json_upsert_user js u))"

fun get_existing_codes :: "storage \<Rightarrow> string option set" where
  "get_existing_codes (SQLiteStorage db) = sqlite_get_existing_codes db"
| "get_existing_codes (JSONStorage js) = json_get_existing_codes js"

fun get_enriched_users :: "storage \<Rightarrow> string option set" where
  "get_enriched_users (SQLiteStorage db) = sqlite_get_enriched_users db"
| "get_enriched_users (JSONStorage js) = json_get_enriched_users js"

fun get_post_count :: "storage \<Rightarrow> int" where
  "get_post_count (SQLiteStorage db) = sqlite_get_post_count db"
| "get_post_count (JSONStorage js) = json_get_post_count js"

text \<open>
  The number of statements sent to the database so far, and whether the engine rejects
  the statement of a given number; the JSON backend sends none.
\<close>

fun statements :: "storage \<Rightarrow> nat" where
  "statements (SQLiteStorage db) = executed db"
| "statements (JSONStorage js) = 0"

fun rejects :: "storage \<Rightarrow> nat \<Rightarrow> bool" where
  "rejects (SQLiteStorage db) k = faults db k"
| "rejects (JSONStorage js) k = False"

text \<open>No write between the storage states \<open>s\<close> and \<open>s1\<close> was rejected.\<close>

definition no_write_rejected :: "storage \<Rightarrow> storage \<Rightarrow> bool" where
  "no_write_rejected s s1 \<longleftrightarrow> (\<forall>k \<in> {statements s ..< statements s1}. \<not> rejects s k)"

text \<open>
  Upserting a sequence of posts, one after the other, and reading the post count
  afterwards.
\<close>

fun upsert_posts :: "storage \<Rightarrow> post list \<Rightarrow> py_error + storage" where
  "upsert_posts s [] = Inr s"
| "upsert_posts s (p # ps) =
     (case upsert_post s p of
        Inl err \<Rightarrow> Inl err
      | Inr (stored, s1) \<Rightarrow> upsert_posts s1 ps)"

definition count_after :: "storage \<Rightarrow> post list \<Rightarrow> py_error + int" where
  "count_after s ps =
     (case upsert_posts s ps of Inl err \<Rightarrow> Inl err | Inr s1 \<Rightarrow> Inr (get_post_count s1))"

section \<open>The feed client (api.py)\<close>

text \<open>
  A media object of the sections response: its \<open>code\<close> key, and the values that
  \<open>parse_media\<close> computes for the other keys of the post dictionary. (Their derivation
  from the raw object, by a regular expression, a timestamp conversion and a maximum over
  image candidates, is library computation left outside the model.) \<open>parse_media\<close> sets
  \<open>code\<close> to \<open>media.get("code", "")\<close> and does not set \<open>storage_url\<close> or
  \<open>local_image_path\<close>.
\<close>

record media =
  m_code :: "string field"
  m_parsed :: post

definition parse_media :: "media \<Rightarrow> post" where
  "parse_media m =
     (m_parsed m)\<lparr> p_code := entry (get_default (m_code m) ''''),
                    p_local_image_path := Absent,
                    p_storage_url := Absent \<rparr>"

text \<open>
  The decoded body of a successful response: the media of \<open>sections[*].layout_content.medias\<close>,
  section by section, \<open>more_available\<close> (absent counts as \<open>False\<close>) and \<open>next_max_id\<close>.
\<close>

record page =
  pg_sections :: "media list list"
  pg_more_available :: bool
  pg_next_max_id :: "string option"

datatype body = NotJson | Json page

text \<open>
  What one \<open>http.post\<close> does: it raises a \<open>RequestException\<close> (transport failure), or it
  returns a response with a status code and a body.
\<close>

datatype response = RequestException | Response nat body

text \<open>
  The server and the network, for one hashtag, tab and session: the answer to the request
  made in iteration \<open>page\<close> of the loop with the given \<open>max_id\<close> (\<open>None\<close> when the request
  carries none).
\<close>

type_synonym feed = "nat \<Rightarrow> string option \<Rightarrow> response"

text \<open>
  The effects of a call, in order: a request (iteration, \<open>max_id\<close> sent, answer received)
  and \<open>time.sleep(random.uniform(lo, hi))\<close>.
\<close>

datatype event = Request nat "string option" response | Sleep real real

text \<open>\<open>r.ok\<close> of the \<open>requests\<close> library: no client or server error status.\<close>

definition ok :: "nat \<Rightarrow> bool" where
  "ok status_code \<longleftrightarrow> \<not> (400 \<le> status_code \<and> status_code < 600)"

text \<open>
  The two inner loops over the media of a page: a media object without a code, with an
  empty code or with a code already seen in this call is skipped.
\<close>

fun page_medias :: "media list \<Rightarrow> string set \<times> post list \<Rightarrow> string set \<times> post list" where
  "page_medias [] acc = acc"
| "page_medias (m # ms) (seen_codes, page_posts) =
     (case get (m_code m) of
        None \<Rightarrow> page_medias ms (seen_codes, page_posts)
      | Some code \<Rightarrow>
          if code = '''' \<or> code \<in> seen_codes then page_medias ms (seen_codes, page_posts)
          else page_medias ms (insert code seen_codes, page_posts @ [parse_media m]))"

record fetch_state =
  all_posts :: "post list"
  seen_codes :: "string set"
  next_cursor :: "string option"

text \<open>\<open>data["max_id"]\<close>, set only when \<open>next_cursor\<close> is neither \<open>None\<close> nor empty.\<close>

definition request_data :: "fetch_state \<Rightarrow> string option" where
  "request_data st =
     (case next_cursor st of None \<Rightarrow> None | Some c \<Rightarrow> if c = '''' then None else Some c)"

text \<open>The part of the loop body that handles a decoded page.\<close>

definition process_page :: "page \<Rightarrow> fetch_state \<Rightarrow> fetch_state" where
  "process_page result st =
     (let (seen, page_posts) = page_medias (concat (pg_sections result)) (seen_codes st, [])
      in \<lparr> all_posts = all_posts st @ page_posts,
           seen_codes = seen,
           next_cursor = pg_next_max_id result \<rparr>)"

definition prepend :: "event list \<Rightarrow> event list \<times> 'a \<Rightarrow> event list \<times> 'a" where
  "prepend es run = (es @ fst run, snd run)"

text \<open>
  The loop \<open>for page in range(max_pages)\<close>, with the number of iterations left as an
  argument. \<open>break\<close> returns \<open>all_posts\<close>; \<open>continue\<close> goes to the next iteration;
  \<open>r.json()\<close> on a body that is not JSON raises.
\<close>

fun fetch_pages ::
  "feed \<Rightarrow> nat \<Rightarrow> nat \<Rightarrow> fetch_state \<Rightarrow> event list \<times> (py_error + post list)" where
  "fetch_pages feed page 0 st = ([], Inr (all_posts st))"
| "fetch_pages feed page (Suc remaining) st =
     (let r = feed page (request_data st);
          ev = Request page (request_data st) r
      in case r of
           RequestException \<Rightarrow> ([ev], Inr (all_posts st))
         | Response status_code body \<Rightarrow>
             if status_code = 429
             then prepend [ev, Sleep 30 60] (fetch_pages feed (Suc page) remaining st)
             else if \<not> ok status_code then ([ev], Inr (all_posts st))
             else (case body of
                     NotJson \<Rightarrow> ([ev], Inl JSONDecodeError)
                   | Json result \<Rightarrow>
                       let st' = process_page result st
                       in if \<not> pg_more_available result then ([ev], Inr (all_posts st'))
                          else prepend [ev, Sleep (3 / 2) 3]
                                 (fetch_pages feed (Suc page) remaining st')))"

text \<open>The state before the loop; \<open>range(max_pages)\<close> is empty for a negative \<open>max_pages\<close>.\<close>

definition initial_state :: fetch_state where
  "initial_state = \<lparr> all_posts = [], seen_codes = {}, next_cursor = None \<rparr>"

definition fetch_hashtag_posts :: "feed \<Rightarrow> int \<Rightarrow> event list \<times> (py_error + post list)" where
  "fetch_hashtag_posts feed max_pages = fetch_pages feed 0 (nat max_pages) initial_state"

subsection \<open>Reading a trace\<close>

text \<open>The answers received, in order.\<close>

fun responses :: "event list \<Rightarrow> response list" where
  "responses [] = []"
| "responses (Request page max_id r # es) = r # responses es"
| "responses (Sleep lo hi # es) = responses es"

text \<open>An answer with status 429.\<close>

fun rate_limited :: "response \<Rightarrow> bool" where
  "rate_limited (Response status_code body) = (status_code = 429)"
| "rate_limited RequestException = False"

text \<open>A transport failure, or a status that is neither 429 nor a success.\<close>

fun failed :: "response \<Rightarrow> bool" where
  "failed RequestException = True"
| "failed (Response status_code body) = (status_code \<noteq> 429 \<and> \<not> ok status_code)"

text \<open>The pages successfully fetched: the decoded bodies of the successful answers.\<close>

fun pages_of :: "response list \<Rightarrow> page list" where
  "pages_of [] = []"
| "pages_of (Response status_code (Json result) # rs) =
     (if status_code \<noteq> 429 \<and> ok status_code then result # pages_of rs else pages_of rs)"
| "pages_of (r # rs) = pages_of rs"

text \<open>A successful answer that reports \<open>more_available = false\<close>.\<close>

fun no_more :: "response \<Rightarrow> bool" where
  "no_more (Response status_code (Json result)) =
     (status_code \<noteq> 429 \<and> ok status_code \<and> \<not> pg_more_available result)"
| "no_more r = False"

text \<open>
  An answer after which the loop goes on: a rate limit, or a successful page that reports
  more pages.
\<close>

fun goes_on :: "response \<Rightarrow> bool" where
  "goes_on RequestException = False"
| "goes_on (Response status_code body) =
     (status_code = 429 \<or>
      (ok status_code \<and> (case body of NotJson \<Rightarrow> False | Json result \<Rightarrow> pg_more_available result)))"

text \<open>The posts accumulated from a sequence of pages, starting from a state.\<close>

fun accumulate :: "page list \<Rightarrow> fetch_state \<Rightarrow> fetch_state" where
  "accumulate [] st = st"
| "accumulate (result # pgs) st = accumulate pgs (process_page result st)"

text \<open>A successful answer whose body is not JSON: \<open>r.json()\<close> raises on it.\<close>

fun undecodable :: "response \<Rightarrow> bool" where
  "undecodable (Response status_code NotJson) = (status_code \<noteq> 429 \<and> ok status_code)"
| "undecodable r = False"

text \<open>
  Example feeds. \<open>feed_two_pages\<close> serves a first page with a continuation token and, for
  that token, a second page that reports no further pages; \<open>feed_failing\<close> serves the
  first page and then fails at the transport level; \<open>feed_rate_limited\<close> answers the
  first request with status 429 and every later one with a page that reports more pages.
\<close>

definition media_abc :: media where
  "media_abc = \<lparr> m_code = Val ''CxR2a4Nv3'', m_parsed = post_abc \<rparr>"

definition media_cy :: media where
  "media_cy = \<lparr> m_code = Val ''Cy'', m_parsed = post_abc\<lparr>p_username := Val ''bob''\<rparr> \<rparr>"

definition page_one :: page where
  "page_one = \<lparr> pg_sections = [[media_abc]], pg_more_available = True,
                pg_next_max_id = Some ''cursor1'' \<rparr>"

definition page_two :: page where
  "page_two = \<lparr> pg_sections = [[media_abc], [media_cy]], pg_more_available = False,
                pg_next_max_id = None \<rparr>"

definition feed_two_pages :: feed where
  "feed_two_pages page max_id =
     (if max_id = None then Response 200 (Json page_one)
      else if max_id = Some ''cursor1'' then Response 200 (Json page_two)
      else Response 404 NotJson)"

definition feed_failing :: feed where
  "feed_failing page max_id =
     (if page = 0 then Response 200 (Json page_one) else RequestException)"

definition feed_rate_limited :: feed where
  "feed_rate_limited page max_id =
     (if page = 0 then Response 429 NotJson else Response 200 (Json page_one))"

text \<open>
  \<open>feed_not_modified\<close> serves the first page and answers the second request with status
  304 and no body.
\<close>

definition feed_not_modified :: feed where
  "feed_not_modified page max_id =
     (if page = 0 then Response 200 (Json page_one) else Response 304 NotJson)"

section \<open>The harvest orchestrator (scraper.py)\<close>

text \<open>
  What lies outside the process during one call of \<open>scrape_hashtag\<close>: the image server
  (the content served for a URL with status 200, \<open>None\<close> for any other outcome), whether
  a file can be written under a path, the answer of \<open>fetch_user_profile\<close> for a username,
  and the order in which Python iterates over a set of usernames.
\<close>

record env =
  cdn :: "string \<Rightarrow> string option"
  writable :: "string \<Rightarrow> bool"
  profile :: "string \<Rightarrow> user option"
  set_order :: "string list \<Rightarrow> string list"

definition download_image :: "env \<Rightarrow> string \<Rightarrow> string option" where
  "download_image e image_url = (if image_url = '''' then None else cdn e image_url)"

text \<open>
  \<open>store_image\<close>: the SQLite backend writes the file under its image directory and
  returns the path (\<open>OSError\<close> when the file cannot be written); the JSON backend
  inherits the default of the base class, which returns \<open>None\<close>.
\<close>

fun store_image :: "env \<Rightarrow> storage \<Rightarrow> string \<Rightarrow> string \<Rightarrow> py_error + string option" where
  "store_image e (SQLiteStorage db) image_bytes filename =
     (let path = img_dir db @ ''/'' @ filename
      in if writable e path then Inr (Some path) else Inl OSError)"
| "store_image e (JSONStorage js) image_bytes filename = Inr None"

text \<open>
  \<open>[p for p in posts if p["code"] not in existing_codes]\<close>; the subscript raises
  \<open>KeyError\<close> on a dictionary without the key.
\<close>

fun new_posts_of :: "string option set \<Rightarrow> post list \<Rightarrow> py_error + post list" where
  "new_posts_of existing_codes [] = Inr []"
| "new_posts_of existing_codes (p # ps) =
     (case subscript (p_code p) of
        None \<Rightarrow> Inl KeyError
      | Some code \<Rightarrow>
          (case new_posts_of existing_codes ps of
             Inl e \<Rightarrow> Inl e
           | Inr rest \<Rightarrow> Inr (if code \<notin> existing_codes then p # rest else rest)))"

text \<open>
  The download step of the loop body: the post, with \<open>storage_url\<close> and
  \<open>local_image_path\<close> set when the image was downloaded and stored. The file name is
  \<open>f"{post['code']}.jpg"\<close>, in which \<open>None\<close> is formatted as \<open>None\<close>.
\<close>

definition attach_image :: "env \<Rightarrow> bool \<Rightarrow> storage \<Rightarrow> post \<Rightarrow> py_error + post" where
  "attach_image e download_images s post =
     (case get (p_image_url post) of
        None \<Rightarrow> Inr post
      | Some image_url \<Rightarrow>
          if \<not> download_images \<or> image_url = '''' then Inr post
          else (case download_image e image_url of
                  None \<Rightarrow> Inr post
                | Some img_bytes \<Rightarrow>
                    if img_bytes = '''' then Inr post
                    else (case subscript (p_code post) of
                            None \<Rightarrow> Inl KeyError
                          | Some code \<Rightarrow>
                              (case store_image e s img_bytes
                                      ((case code of None \<Rightarrow> ''None'' | Some c \<Rightarrow> c) @ ''.jpg'') of
                                 Inl err \<Rightarrow> Inl err
                               | Inr None \<Rightarrow> Inr post
                               | Inr (Some url) \<Rightarrow>
                                   if url = '''' then Inr post
                                   else Inr (post\<lparr>p_storage_url := Val url,
                                                   p_local_image_path := Val url\<rparr>)))))"

text \<open>
  The loop \<open>for i, post in enumerate(new_posts)\<close>. The state is the storage, the set
  \<open>users_seen\<close> (kept as the list of its members in the order they were added) and the
  counter \<open>stored\<close>. An exception leaves the loop with the storage as it is then. The
  flags returned by \<open>upsert_user\<close> and \<open>upsert_post\<close> are dropped: \<open>stored\<close> is
  incremented whether or not the post was written. The pacing sleeps, which do not bear
  on the result, are not recorded.
\<close>

fun store_posts ::
  "env \<Rightarrow> bool \<Rightarrow> post list \<Rightarrow> storage \<Rightarrow> string list \<Rightarrow> int
     \<Rightarrow> storage \<times> string list \<times> (py_error + int)" where
  "store_posts e download_images [] s users_seen stored = (s, users_seen, Inr stored)"
| "store_posts e download_images (post # rest) s users_seen stored =
     (let username = (case get (p_username post) of None \<Rightarrow> '''' | Some u \<Rightarrow> u)
      in case attach_image e download_images s post of
           Inl err \<Rightarrow> (s, users_seen, Inl err)
         | Inr post1 \<Rightarrow>
             (case (if username \<noteq> '''' then upsert_user s (minimal_user username post1)
                    else Inr (True, s)) of
                Inl err \<Rightarrow> (s, users_seen, Inl err)
              | Inr (user_written, s1) \<Rightarrow>
                  let users_seen1 = (if username \<noteq> '''' \<and> username \<notin> set users_seen
                                     then users_seen @ [username] else users_seen)
                  in (case upsert_post s1 post1 of
                        Inl err \<Rightarrow> (s1, users_seen1, Inl err)
                      | Inr (post_written, s2) \<Rightarrow>
                          store_posts e download_images rest s2 users_seen1 (stored + 1))))"

text \<open>
  The loop \<open>for j, uname in enumerate(to_enrich)\<close>. The log line formats
  \<open>profile.get('followers', 0)\<close> with \<open>:,\<close>, which raises \<open>TypeError\<close> when the value is
  \<open>None\<close>.
\<close>

fun enrich :: "env \<Rightarrow> string list \<Rightarrow> storage \<Rightarrow> storage \<times> py_error option" where
  "enrich e [] s = (s, None)"
| "enrich e (uname # rest) s =
     (case profile e uname of
        None \<Rightarrow> enrich e rest s
      | Some prof \<Rightarrow>
          (case upsert_user s prof of
             Inl err \<Rightarrow> (s, Some err)
           | Inr (user_written, s1) \<Rightarrow>
               (case get_default (u_followers prof) 0 of
                  None \<Rightarrow> (s1, Some TypeError)
                | Some followers \<Rightarrow> enrich e rest s1)))"

text \<open>
  \<open>scrape_hashtag\<close>, for the hashtag, tab and session that the feed stands for. The
  result is the storage after the call together with the number returned or the
  exception raised.
\<close>

definition scrape_hashtag ::
  "env \<Rightarrow> feed \<Rightarrow> int \<Rightarrow> bool \<Rightarrow> bool \<Rightarrow> storage \<Rightarrow> storage \<times> (py_error + int)" where
  "scrape_hashtag e feed max_pages download_images enrich_users s =
     (let existing_codes = get_existing_codes s
      in case snd (fetch_hashtag_posts feed max_pages) of
           Inl err \<Rightarrow> (s, Inl err)
         | Inr fetched \<Rightarrow>
             (case new_posts_of existing_codes fetched of
                Inl err \<Rightarrow> (s, Inl err)
              | Inr new_posts \<Rightarrow>
                  if new_posts = [] then (s, Inr 0)
                  else (case store_posts e download_images new_posts s [] 0 of
                          (s1, users_seen, Inl err) \<Rightarrow> (s1, Inl err)
                        | (s1, users_seen, Inr stored) \<Rightarrow>
                            if enrich_users
                            then (let enriched = get_enriched_users s1;
                                      to_enrich = set_order e
                                        (filter (\<lambda>u. Some u \<notin> enriched) users_seen)
                                  in case enrich e to_enrich s1 of
                                       (s2, Some err) \<Rightarrow> (s2, Inl err)
                                     | (s2, None) \<Rightarrow> (s2, Inr stored))
                            else (s1, Inr stored))))"

text \<open>Example surroundings: every image is served, every file can be written, no profile is found.\<close>

definition env_plain :: env where
  "env_plain = \<lparr> cdn = (\<lambda>url. Some ''JPEG''), writable = (\<lambda>path. True),
                 profile = (\<lambda>uname. None), set_order = (\<lambda>us. us) \<rparr>"

text \<open>An empty database whose engine rejects the second statement sent to it.\<close>

definition flaky_db :: sqlite_db where
  "flaky_db = empty_db\<lparr>faults := (\<lambda>k. k = 1)\<rparr>"

section \<open>The daemon controller (daemon.py)\<close>

















section \<open>Properties of the shortcode decoding\<close>

lemma str_index_None_iff: "str_index xs c = None \<longleftrightarrow> c \<notin> set xs"
  by (induction xs) auto

lemma str_index_less: "str_index xs c = Some i \<Longrightarrow> i < length xs"
  by (induction xs arbitrary: i) (auto split: if_splits)

lemma str_index_nth: "str_index xs c = Some i \<Longrightarrow> xs ! i = c"
  by (induction xs arbitrary: i) (auto split: if_splits)

lemma str_index_inj:
  assumes "str_index xs c = Some i" and "str_index xs d = Some i"
  shows "c = d"
  using assms by (metis str_index_nth)

lemma length_SHORTCODE_ALPHABET: "length SHORTCODE_ALPHABET = 64"
  by (simp add: SHORTCODE_ALPHABET_def)

lemma alphabet_index_less:
  "str_index SHORTCODE_ALPHABET c = Some i \<Longrightarrow> i < 64"
  using str_index_less [of SHORTCODE_ALPHABET c i] by (simp add: length_SHORTCODE_ALPHABET)

lemma pk_loop_append:
  "pk_loop pk (xs @ ys) = (case pk_loop pk xs of Inl e \<Rightarrow> Inl e | Inr v \<Rightarrow> pk_loop v ys)"
  by (induction xs arbitrary: pk) (auto split: option.splits)

lemma pk_loop_Inr_iff:
  "(\<exists>v. pk_loop pk code = Inr v) \<longleftrightarrow> set code \<subseteq> set SHORTCODE_ALPHABET"
proof (induction code arbitrary: pk)
  case Nil
  show ?case by simp
next
  case (Cons c cs)
  show ?case
  proof (cases "str_index SHORTCODE_ALPHABET c")
    case None
    then have "c \<notin> set SHORTCODE_ALPHABET"
      using str_index_None_iff [of SHORTCODE_ALPHABET c] by simp
    with None show ?thesis by simp
  next
    case (Some i)
    then have "c \<in> set SHORTCODE_ALPHABET"
      using str_index_None_iff [of SHORTCODE_ALPHABET c] by simp
    with Some Cons.IH show ?thesis by simp
  qed
qed

lemma pk_loop_error:
  "pk_loop pk code = Inl e \<Longrightarrow> e = ValueError"
  by (induction code arbitrary: pk) (auto split: option.splits)

lemma shortcode_snoc:
  assumes "shortcode_to_media_pk code = Inr v"
    and "str_index SHORTCODE_ALPHABET c = Some i"
  shows "shortcode_to_media_pk (code @ [c]) = Inr (v * 64 + int i)"
  using assms by (simp add: shortcode_to_media_pk_def pk_loop_append)

lemma shortcode_snoc_cases:
  assumes "shortcode_to_media_pk (code @ [c]) = Inr w"
  obtains v i where "shortcode_to_media_pk code = Inr v"
    and "str_index SHORTCODE_ALPHABET c = Some i" and "w = v * 64 + int i"
  using assms
  by (auto simp: shortcode_to_media_pk_def pk_loop_append split: sum.splits option.splits)

lemma shortcode_nonneg: "shortcode_to_media_pk code = Inr v \<Longrightarrow> 0 \<le> v"
proof (induction code arbitrary: v rule: rev_induct)
  case Nil
  then show ?case by (simp add: shortcode_to_media_pk_def)
next
  case (snoc c code)
  from snoc.prems obtain u i where "shortcode_to_media_pk code = Inr u" "v = u * 64 + int i"
    by (rule shortcode_snoc_cases)
  with snoc.IH show ?case by fastforce
qed

lemma base64_split:
  fixes u w :: int and i j :: nat
  assumes "u * 64 + int i = w * 64 + int j" and "i < 64" and "j < 64"
  shows "u = w \<and> i = j"
proof -
  have "(u * 64 + int i) div 64 = u" using assms(2) by simp
  moreover have "(w * 64 + int j) div 64 = w" using assms(3) by simp
  ultimately have "u = w" using assms(1) by simp
  with assms(1) show ?thesis by simp
qed

lemma shortcode_inj_same_length:
  assumes "length a = length b"
    and "shortcode_to_media_pk a = Inr v" and "shortcode_to_media_pk b = Inr v"
  shows "a = b"
  using assms
proof (induction a arbitrary: b v rule: rev_induct)
  case Nil
  then show ?case by simp
next
  case (snoc x xs)
  from snoc.prems(1) obtain ys y where b_def: "b = ys @ [y]" and len: "length xs = length ys"
    by (cases b rule: rev_cases) auto
  from snoc.prems(2) obtain u i where a: "shortcode_to_media_pk xs = Inr u"
    "str_index SHORTCODE_ALPHABET x = Some i" "v = u * 64 + int i"
    by (rule shortcode_snoc_cases)
  from snoc.prems(3) b_def obtain w j where b: "shortcode_to_media_pk ys = Inr w"
    "str_index SHORTCODE_ALPHABET y = Some j" "v = w * 64 + int j"
    by (auto elim: shortcode_snoc_cases)
  have "i < 64" "j < 64"
    using a(2) b(2) by (auto dest: alphabet_index_less)
  with a(3) b(3) have "u = w" and "i = j"
    using base64_split [of u i w j] by simp_all
  from b(1) \<open>u = w\<close> have "shortcode_to_media_pk ys = Inr u" by simp
  with len a(1) have "xs = ys" by (rule snoc.IH)
  moreover from b(2) \<open>i = j\<close> have "str_index SHORTCODE_ALPHABET y = Some i" by simp
  with a(2) have "x = y" by (rule str_index_inj)
  ultimately show ?case by (simp add: b_def)
qed

lemma alphabet_head: "\<exists>rest. SHORTCODE_ALPHABET = CHR ''A'' # rest"
  by (simp add: SHORTCODE_ALPHABET_def)

lemma alphabet_index_pos:
  assumes "str_index SHORTCODE_ALPHABET c = Some i" and "c \<noteq> CHR ''A''"
  shows "0 < i"
proof -
  from alphabet_head obtain rest where "SHORTCODE_ALPHABET = CHR ''A'' # rest" ..
  with assms(1) have "str_index (CHR ''A'' # rest) c = Some i" by simp
  with assms(2) show ?thesis by (auto split: if_splits)
qed

lemma pk_loop_range:
  "pk_loop p cs = Inr v \<Longrightarrow> p * 64 ^ length cs \<le> v \<and> v < (p + 1) * 64 ^ length cs"
proof (induction cs arbitrary: p)
  case Nil
  then show ?case by simp
next
  case (Cons c cs)
  define K :: int where "K = 64 ^ length cs"
  have K: "0 \<le> K" by (simp add: K_def)
  from Cons.prems obtain i where i: "str_index SHORTCODE_ALPHABET c = Some i"
    and run: "pk_loop (p * 64 + int i) cs = Inr v"
    by (auto split: option.splits)
  from i have "i < 64" by (rule alphabet_index_less)
  from Cons.IH [OF run] have lo: "(p * 64 + int i) * K \<le> v" and hi: "v < (p * 64 + int i + 1) * K"
    by (simp_all add: K_def)
  have "(p * 64) * K \<le> (p * 64 + int i) * K"
    using K by (intro mult_right_mono) simp_all
  with lo have "(p * 64) * K \<le> v" by simp
  moreover have "(p * 64 + int i + 1) * K \<le> ((p + 1) * 64) * K"
    using K \<open>i < 64\<close> by (intro mult_right_mono) simp_all
  with hi have "v < ((p + 1) * 64) * K" by simp
  ultimately have "(p * 64) * K \<le> v \<and> v < ((p + 1) * 64) * K" by simp
  moreover have "p * 64 ^ length (c # cs) = (p * 64) * K"
    and "(p + 1) * 64 ^ length (c # cs) = ((p + 1) * 64) * K"
    by (simp_all add: K_def)
  ultimately show ?case by (simp only:)
qed

lemma shortcode_range_no_leading_A:
  assumes "shortcode_to_media_pk (c # cs) = Inr v" and "c \<noteq> CHR ''A''"
  shows "64 ^ length cs \<le> v \<and> v < 64 ^ Suc (length cs)"
proof -
  define K :: int where "K = 64 ^ length cs"
  have K: "0 \<le> K" by (simp add: K_def)
  from assms(1) obtain i where i: "str_index SHORTCODE_ALPHABET c = Some i"
    and run: "pk_loop (int i) cs = Inr v"
    by (auto simp: shortcode_to_media_pk_def split: option.splits)
  from i have "i < 64" by (rule alphabet_index_less)
  from i assms(2) have "0 < i" by (rule alphabet_index_pos)
  from pk_loop_range [OF run] have lo: "int i * K \<le> v" and hi: "v < (int i + 1) * K"
    by (simp_all add: K_def)
  have "1 * K \<le> int i * K"
    using K \<open>0 < i\<close> by (intro mult_right_mono) simp_all
  with lo have "K \<le> v" by simp
  moreover have "(int i + 1) * K \<le> 64 * K"
    using K \<open>i < 64\<close> by (intro mult_right_mono) simp_all
  with hi have "v < 64 * K" by simp
  ultimately show ?thesis by (simp add: K_def)
qed

lemma shortcode_length_no_leading_A:
  assumes "shortcode_to_media_pk a = Inr v" and "shortcode_to_media_pk b = Inr v"
    and "no_leading_A a" and "no_leading_A b"
  shows "length a \<le> length b"
proof (cases a)
  case Nil
  then show ?thesis by simp
next
  case (Cons c cs)
  with assms(1,3) have a: "(64::int) ^ length cs \<le> v"
    using shortcode_range_no_leading_A [of c cs v] by (simp add: no_leading_A_def)
  show ?thesis
  proof (cases b)
    case Nil
    with assms(2) have "v = 0" by (simp add: shortcode_to_media_pk_def)
    with a have "(64::int) ^ length cs \<le> 0" by simp
    moreover have "(0::int) < 64 ^ length cs" by simp
    ultimately show ?thesis by linarith
  next
    case (Cons d ds)
    with assms(2,4) have b: "v < (64::int) ^ Suc (length ds)"
      using shortcode_range_no_leading_A [of d ds v] by (simp add: no_leading_A_def)
    from a b have "(64::int) ^ length cs < 64 ^ Suc (length ds)" by linarith
    then have "length cs < Suc (length ds)"
      by (simp only: power_strict_increasing_iff [of "64::int"] one_less_numeral_iff
            num.simps semiring_norm)
    with \<open>a = c # cs\<close> Cons show ?thesis by simp
  qed
qed

lemma pk_loop_foldl:
  "set code \<subseteq> set SHORTCODE_ALPHABET \<Longrightarrow>
   pk_loop pk code =
     Inr (foldl (\<lambda>value char. value * 64 + int (the (str_index SHORTCODE_ALPHABET char))) pk code)"
proof (induction code arbitrary: pk)
  case Nil
  show ?case by simp
next
  case (Cons c cs)
  from Cons.prems have "c \<in> set SHORTCODE_ALPHABET" by simp
  then obtain i where "str_index SHORTCODE_ALPHABET c = Some i"
    using str_index_None_iff [of SHORTCODE_ALPHABET c] by auto
  with Cons show ?case by simp
qed

text \<open>
  Claim C4, as the code has it. On codes over the alphabet \<open>shortcode_to_media_pk\<close> returns
  exactly the left-to-right accumulation \<open>value = value*64 + alphabet.index(char)\<close>; a
  one-character code decodes to the index of its character; and two codes with the same
  value are equal when they have the same length, or when neither begins with \<open>A\<close>
  (the character of index 0). A leading \<open>A\<close> does not change the value. Being a function
  of the code alone, the result is deterministic.
\<close>

theorem shortcode_to_media_pk_accumulation:
  assumes "set a \<subseteq> set SHORTCODE_ALPHABET" and "set b \<subseteq> set SHORTCODE_ALPHABET"
  shows "shortcode_to_media_pk a = Inr (spec_accumulate a)
       \<and> (\<forall>c i. str_index SHORTCODE_ALPHABET c = Some i
              \<longrightarrow> shortcode_to_media_pk [c] = Inr (int i))
       \<and> (shortcode_to_media_pk a = shortcode_to_media_pk b
            \<and> (length a = length b \<or> (no_leading_A a \<and> no_leading_A b))
          \<longrightarrow> a = b)
       \<and> shortcode_to_media_pk (CHR ''A'' # a) = shortcode_to_media_pk a"
proof (intro conjI allI impI)
  show "shortcode_to_media_pk a = Inr (spec_accumulate a)"
    using assms(1) by (simp add: shortcode_to_media_pk_def spec_accumulate_def pk_loop_foldl)
next
  have "str_index SHORTCODE_ALPHABET CHR ''A'' = Some 0"
    by (simp add: SHORTCODE_ALPHABET_def)
  then show "shortcode_to_media_pk (CHR ''A'' # a) = shortcode_to_media_pk a"
    by (simp add: shortcode_to_media_pk_def)
next
  fix c i
  assume "str_index SHORTCODE_ALPHABET c = Some i"
  then show "shortcode_to_media_pk [c] = Inr (int i)"
    by (simp add: shortcode_to_media_pk_def)
next
  assume h: "shortcode_to_media_pk a = shortcode_to_media_pk b
     \<and> (length a = length b \<or> (no_leading_A a \<and> no_leading_A b))"
  from assms(1) obtain v where a: "shortcode_to_media_pk a = Inr v"
    using pk_loop_Inr_iff [of 0 a] by (auto simp: shortcode_to_media_pk_def)
  with h have b: "shortcode_to_media_pk b = Inr v" by simp
  have "length a = length b"
  proof (cases "length a = length b")
    case True
    then show ?thesis .
  next
    case False
    with h have "no_leading_A a" and "no_leading_A b" by simp_all
    then have "length a \<le> length b" and "length b \<le> length a"
      using a b by (auto intro: shortcode_length_no_leading_A)
    then show ?thesis by simp
  qed
  then show "a = b" using a b by (rule shortcode_inj_same_length)
qed

theorem shortcode_to_media_pk_accumulation_witness:
  "set ''CxR'' \<subseteq> set SHORTCODE_ALPHABET \<and> set ''CxS'' \<subseteq> set SHORTCODE_ALPHABET
   \<and> shortcode_to_media_pk ''CxR'' = Inr 11345
   \<and> spec_accumulate ''CxR'' = 11345
   \<and> shortcode_to_media_pk ''x'' = Inr 49
   \<and> shortcode_to_media_pk ''CxR'' \<noteq> shortcode_to_media_pk ''CxS''"
proof -
  have a: "set ''CxR'' \<subseteq> set SHORTCODE_ALPHABET"
    and b: "set ''CxS'' \<subseteq> set SHORTCODE_ALPHABET"
    by (simp_all add: SHORTCODE_ALPHABET_def)
  have x: "str_index SHORTCODE_ALPHABET CHR ''x'' = Some 49"
    by (simp add: SHORTCODE_ALPHABET_def)
  have v: "shortcode_to_media_pk ''CxR'' = Inr 11345"
    by (simp add: shortcode_to_media_pk_def SHORTCODE_ALPHABET_def)
  from shortcode_to_media_pk_accumulation [OF a b] x v a b show ?thesis
    by auto
qed

text \<open>
  Claim C4 as stated fails on the code: the conversion is not injective over all strings
  drawn from the alphabet, since \<open>A\<close> has index 0 and a leading \<open>A\<close> does not change the
  value. The codes \<open>A\<close> and \<open>AA\<close> are distinct, both over the alphabet, and both decode
  to 0.
\<close>

theorem shortcode_to_media_pk_not_injective:
  "set ''A'' \<subseteq> set SHORTCODE_ALPHABET \<and> set ''AA'' \<subseteq> set SHORTCODE_ALPHABET
   \<and> ''A'' \<noteq> ''AA''
   \<and> shortcode_to_media_pk ''A'' = Inr 0 \<and> shortcode_to_media_pk ''AA'' = Inr 0"
  by (simp add: shortcode_to_media_pk_def SHORTCODE_ALPHABET_def)

text \<open>
  Claim C10. \<open>shortcode_to_media_pk\<close> returns a number exactly on the codes whose
  characters all belong to the alphabet: on such a code the \<open>ValueError\<close> of
  \<open>alphabet.index\<close> cannot occur, and on any code with a character outside the alphabet
  the call raises \<open>ValueError\<close>.
\<close>

theorem shortcode_to_media_pk_total_on_alphabet:
  "((\<exists>pk. shortcode_to_media_pk code = Inr pk) \<longleftrightarrow> set code \<subseteq> set SHORTCODE_ALPHABET)
   \<and> (\<not> set code \<subseteq> set SHORTCODE_ALPHABET \<longrightarrow> shortcode_to_media_pk code = Inl ValueError)"
proof -
  have iff: "(\<exists>pk. shortcode_to_media_pk code = Inr pk) \<longleftrightarrow> set code \<subseteq> set SHORTCODE_ALPHABET"
    unfolding shortcode_to_media_pk_def by (rule pk_loop_Inr_iff)
  moreover have "shortcode_to_media_pk code = Inl ValueError"
    if "\<not> set code \<subseteq> set SHORTCODE_ALPHABET"
  proof (cases "shortcode_to_media_pk code")
    case (Inl e)
    then show ?thesis
      using pk_loop_error [of 0 code e] by (simp add: shortcode_to_media_pk_def)
  next
    case (Inr v)
    with iff that show ?thesis by blast
  qed
  ultimately show ?thesis by blast
qed

theorem shortcode_to_media_pk_total_on_alphabet_witness:
  "set ''CxR2a4Nv3'' \<subseteq> set SHORTCODE_ALPHABET
   \<and> (\<exists>pk. shortcode_to_media_pk ''CxR2a4Nv3'' = Inr pk)
   \<and> \<not> set ''Cx R'' \<subseteq> set SHORTCODE_ALPHABET
   \<and> shortcode_to_media_pk ''Cx R'' = Inl ValueError"
proof -
  have good: "set ''CxR2a4Nv3'' \<subseteq> set SHORTCODE_ALPHABET"
    by (simp add: SHORTCODE_ALPHABET_def)
  have bad: "\<not> set ''Cx R'' \<subseteq> set SHORTCODE_ALPHABET"
    by (simp add: SHORTCODE_ALPHABET_def)
  from shortcode_to_media_pk_total_on_alphabet [of "''CxR2a4Nv3''"]
    shortcode_to_media_pk_total_on_alphabet [of "''Cx R''"] good bad
  show ?thesis by blast
qed

section \<open>Properties of the SQLite storage\<close>





text \<open>The three ways out of \<open>upsert_post\<close> and \<open>upsert_user\<close>.\<close>

lemma sqlite_upsert_post_written:
  "sqlite_upsert_post db p = Inr (True, db1) \<longleftrightarrow>
     bindable_post (post_values p) \<and> \<not> faults db (executed db)
     \<and> db1 = db\<lparr>posts := posts_statement (posts db) (post_values p),
                  executed := Suc (executed db)\<rparr>"
  by (auto simp: sqlite_upsert_post_def Let_def)


lemma sqlite_upsert_post_raises:
  "sqlite_upsert_post db p = Inl err \<longleftrightarrow>
     \<not> bindable_post (post_values p) \<and> err = OverflowError"
  by (auto simp: sqlite_upsert_post_def Let_def)



lemma sqlite_upsert_user_raises:
  "sqlite_upsert_user db u = Inl err \<longleftrightarrow>
     \<not> bindable_user (user_values u) \<and> err = OverflowError"
  by (auto simp: sqlite_upsert_user_def Let_def)
















section \<open>Properties of the post count\<close>

lemma posts_statement_new_code:
  assumes "get (p_code p) \<notin> set (map r_code rows) \<or> get (p_code p) = None"
  shows "posts_statement rows (post_values p) = rows @ [post_values p]"
proof -
  have code: "r_code (post_values p) = get (p_code p)"
    by (simp add: post_values_def)
  from assms have "\<not> (\<exists>r \<in> set rows. post_conflict (post_values p) r)"
    by (force simp: post_conflict_def code)
  then show ?thesis
    by (simp add: posts_statement_def)
qed

text \<open>
  On the SQLite backend the count is the number of posts upserted: after posts with
  pairwise distinct codes, none of them stored before, have been upserted, with every
  integer in range and no statement rejected, the count has grown by their number.
\<close>

lemma sqlite_count_distinct_codes:
  assumes "distinct (map (\<lambda>p. get (p_code p)) ps)"
    and "\<forall>p \<in> set ps. get (p_code p) \<notin> sqlite_get_existing_codes db"
    and "\<forall>p \<in> set ps. bindable_post (post_values p)"
    and "\<forall>k. \<not> faults db k"
  shows "count_after (SQLiteStorage db) ps = Inr (sqlite_get_post_count db + int (length ps))"
  using assms
proof (induction ps arbitrary: db)
  case Nil
  show ?case by (simp add: count_after_def)
next
  case (Cons p ps)
  let ?db = "db\<lparr>posts := posts db @ [post_values p], executed := Suc (executed db)\<rparr>"
  from Cons.prems(2) have "get (p_code p) \<notin> set (map r_code (posts db))"
    by (simp add: sqlite_get_existing_codes_def)
  then have "posts_statement (posts db) (post_values p) = posts db @ [post_values p]"
    by (simp add: posts_statement_new_code)
  with Cons.prems(3,4) have run: "sqlite_upsert_post db p = Inr (True, ?db)"
    by (simp add: sqlite_upsert_post_written)
  have codes: "sqlite_get_existing_codes ?db = insert (get (p_code p)) (sqlite_get_existing_codes db)"
    by (simp add: sqlite_get_existing_codes_def post_values_def)
  from Cons.prems(1) have "distinct (map (\<lambda>p. get (p_code p)) ps)"
    by simp
  moreover have "\<forall>q \<in> set ps. get (p_code q) \<notin> sqlite_get_existing_codes ?db"
  proof
    fix q
    assume q: "q \<in> set ps"
    from Cons.prems(1) have "get (p_code p) \<notin> (\<lambda>p. get (p_code p)) ` set ps"
      by simp
    with q have "get (p_code q) \<noteq> get (p_code p)"
      by (metis imageI)
    moreover from q Cons.prems(2) have "get (p_code q) \<notin> sqlite_get_existing_codes db"
      by simp
    ultimately show "get (p_code q) \<notin> sqlite_get_existing_codes ?db"
      by (simp add: codes)
  qed
  moreover from Cons.prems(3) have "\<forall>q \<in> set ps. bindable_post (post_values q)"
    by simp
  moreover from Cons.prems(4) have "\<forall>k. \<not> faults ?db k"
    by simp
  ultimately have "count_after (SQLiteStorage ?db) ps
       = Inr (sqlite_get_post_count ?db + int (length ps))"
    by (rule Cons.IH)
  then show ?case
    by (simp add: count_after_def run sqlite_get_post_count_def)
qed

text \<open>
  Claim C9 fails on the JSON backend. Starting from an empty output directory, one
  \<open>upsert_post\<close> puts the post into the buffer and its code into the set of existing
  codes, and \<open>get_post_count\<close> adds the sizes of the two: it returns 2 after one post and
  4 after two posts with distinct codes, where the SQLite backend returns 1 and 2.
\<close>

theorem json_get_post_count_counts_twice:
  "count_after (JSONStorage (json_init [])) [post_abc] = Inr 2
   \<and> count_after (SQLiteStorage empty_db) [post_abc] = Inr 1
   \<and> count_after (JSONStorage (json_init [])) [post_abc, post_abc\<lparr>p_code := Val ''Cy''\<rparr>]
       = Inr 4
   \<and> count_after (SQLiteStorage empty_db) [post_abc, post_abc\<lparr>p_code := Val ''Cy''\<rparr>]
       = Inr 2"
  by (simp add: count_after_def json_init_def load_existing_def json_upsert_post_def
      json_get_post_count_def sqlite_upsert_post_def posts_statement_def bindable_post_def
      int64_def sqlite_get_post_count_def empty_db_def post_abc_def post_values_def
      post_conflict_def Let_def)

section \<open>Properties of the feed client\<close>

lemma responses_prepend_request:
  "responses (fst (prepend [Request page c r, Sleep lo hi] run)) = r # responses (fst run)"
  by (simp add: prepend_def)

lemma snd_prepend: "snd (prepend es run) = snd run"
  by (simp add: prepend_def)

text \<open>The five ways through one iteration of the loop.\<close>

lemma fetch_pages_exception:
  assumes "feed page (request_data st) = RequestException"
  shows "fetch_pages feed page (Suc n) st
       = ([Request page (request_data st) RequestException], Inr (all_posts st))"
  using assms by simp

lemma fetch_pages_rate_limited:
  assumes "feed page (request_data st) = Response 429 b"
  shows "fetch_pages feed page (Suc n) st
       = prepend [Request page (request_data st) (Response 429 b), Sleep 30 60]
           (fetch_pages feed (Suc page) n st)"
  using assms by simp

lemma fetch_pages_not_ok:
  assumes "feed page (request_data st) = Response s b" and "s \<noteq> 429" and "\<not> ok s"
  shows "fetch_pages feed page (Suc n) st
       = ([Request page (request_data st) (Response s b)], Inr (all_posts st))"
  using assms by simp

lemma fetch_pages_not_json:
  assumes "feed page (request_data st) = Response s NotJson" and "s \<noteq> 429" and "ok s"
  shows "fetch_pages feed page (Suc n) st
       = ([Request page (request_data st) (Response s NotJson)], Inl JSONDecodeError)"
  using assms by simp

lemma fetch_pages_last_page:
  assumes "feed page (request_data st) = Response s (Json result)" and "s \<noteq> 429" and "ok s"
    and "\<not> pg_more_available result"
  shows "fetch_pages feed page (Suc n) st
       = ([Request page (request_data st) (Response s (Json result))],
          Inr (all_posts (process_page result st)))"
  using assms by (simp add: Let_def)

lemma fetch_pages_more:
  assumes "feed page (request_data st) = Response s (Json result)" and "s \<noteq> 429" and "ok s"
    and "pg_more_available result"
  shows "fetch_pages feed page (Suc n) st
       = prepend [Request page (request_data st) (Response s (Json result)), Sleep (3 / 2) 3]
           (fetch_pages feed (Suc page) n (process_page result st))"
  using assms by (simp add: Let_def)

declare fetch_pages.simps(2) [simp del]

text \<open>
  Case analysis on the answer to the request of one iteration, in the order of the tests
  of the loop body.
\<close>

lemma response_cases [case_names exception rate_limited not_ok not_json last_page more]:
  fixes r :: response
  assumes "r = RequestException \<Longrightarrow> P"
    and "\<And>b. r = Response 429 b \<Longrightarrow> P"
    and "\<And>s b. r = Response s b \<Longrightarrow> s \<noteq> 429 \<Longrightarrow> \<not> ok s \<Longrightarrow> P"
    and "\<And>s. r = Response s NotJson \<Longrightarrow> s \<noteq> 429 \<Longrightarrow> ok s \<Longrightarrow> P"
    and "\<And>s result. r = Response s (Json result) \<Longrightarrow> s \<noteq> 429 \<Longrightarrow> ok s
           \<Longrightarrow> \<not> pg_more_available result \<Longrightarrow> P"
    and "\<And>s result. r = Response s (Json result) \<Longrightarrow> s \<noteq> 429 \<Longrightarrow> ok s
           \<Longrightarrow> pg_more_available result \<Longrightarrow> P"
  shows P
proof (cases r)
  case RequestException
  then show ?thesis by (rule assms(1))
next
  case (Response s b)
  show ?thesis
  proof (cases "s = 429")
    case True
    with Response show ?thesis by (auto intro: assms(2))
  next
    case False
    show ?thesis
    proof (cases "ok s")
      case False
      with Response \<open>s \<noteq> 429\<close> show ?thesis by (auto intro: assms(3))
    next
      case True
      show ?thesis
      proof (cases b)
        case NotJson
        with Response \<open>s \<noteq> 429\<close> True show ?thesis by (auto intro: assms(4))
      next
        case (Json result)
        with Response \<open>s \<noteq> 429\<close> True show ?thesis
          by (cases "pg_more_available result") (auto intro: assms(5) assms(6))
      qed
    qed
  qed
qed

lemma not_ok_429: "\<not> ok 429"
  by (simp add: ok_def)

lemma length_responses_le:
  "length (responses (fst (fetch_pages feed page n st))) \<le> n"
proof (induction n arbitrary: page st)
  case 0
  show ?case by simp
next
  case (Suc n)
  show ?case
  proof (cases "feed page (request_data st)" rule: response_cases)
    case exception
    then show ?thesis by (simp add: fetch_pages_exception)
  next
    case (rate_limited b)
    with Suc.IH [of "Suc page" st] show ?thesis
      by (simp add: fetch_pages_rate_limited responses_prepend_request)
  next
    case (not_ok s b)
    then show ?thesis by (simp add: fetch_pages_not_ok)
  next
    case (not_json s)
    then show ?thesis by (simp add: fetch_pages_not_json)
  next
    case (last_page s result)
    then show ?thesis by (simp add: fetch_pages_last_page)
  next
    case (more s result)
    with Suc.IH [of "Suc page" "process_page result st"] show ?thesis
      by (simp add: fetch_pages_more responses_prepend_request)
  qed
qed

lemma butlast_goes_on:
  "r \<in> set (butlast (responses (fst (fetch_pages feed page n st)))) \<Longrightarrow> goes_on r"
proof (induction n arbitrary: page st)
  case 0
  then show ?case by simp
next
  case (Suc n)
  show ?case
  proof (cases "feed page (request_data st)" rule: response_cases)
    case exception
    with Suc.prems show ?thesis by (simp add: fetch_pages_exception)
  next
    case (rate_limited b)
    with Suc.prems Suc.IH [of "Suc page" st] show ?thesis
      by (auto simp: fetch_pages_rate_limited responses_prepend_request split: if_splits)
  next
    case (not_ok s b)
    with Suc.prems show ?thesis by (simp add: fetch_pages_not_ok)
  next
    case (not_json s)
    with Suc.prems show ?thesis by (simp add: fetch_pages_not_json)
  next
    case (last_page s result)
    with Suc.prems show ?thesis by (simp add: fetch_pages_last_page)
  next
    case (more s result)
    with Suc.prems Suc.IH [of "Suc page" "process_page result st"] show ?thesis
      by (auto simp: fetch_pages_more responses_prepend_request split: if_splits)
  qed
qed

lemma stop_is_last:
  assumes "j < length (responses (fst (fetch_pages feed page n st)))"
    and "\<not> goes_on (responses (fst (fetch_pages feed page n st)) ! j)"
  shows "Suc j = length (responses (fst (fetch_pages feed page n st)))"
proof (rule ccontr)
  let ?rs = "responses (fst (fetch_pages feed page n st))"
  assume "Suc j \<noteq> length ?rs"
  with assms(1) have j: "j < length (butlast ?rs)" by simp
  then have "butlast ?rs ! j \<in> set (butlast ?rs)" by (rule nth_mem)
  moreover from j have "butlast ?rs ! j = ?rs ! j" by (simp add: nth_butlast)
  ultimately have "goes_on (?rs ! j)" by (simp add: butlast_goes_on)
  with assms(2) show False by simp
qed

lemma early_stop_reason:
  assumes "length (responses (fst (fetch_pages feed page n st))) < n"
  shows "responses (fst (fetch_pages feed page n st)) \<noteq> []
       \<and> \<not> goes_on (last (responses (fst (fetch_pages feed page n st))))"
  using assms
proof (induction n arbitrary: page st)
  case 0
  then show ?case by simp
next
  case (Suc n)
  show ?case
  proof (cases "feed page (request_data st)" rule: response_cases)
    case exception
    then show ?thesis by (simp add: fetch_pages_exception)
  next
    case (rate_limited b)
    with Suc.prems Suc.IH [of "Suc page" st] show ?thesis
      by (simp add: fetch_pages_rate_limited responses_prepend_request)
  next
    case (not_ok s b)
    then show ?thesis by (simp add: fetch_pages_not_ok)
  next
    case (not_json s)
    then show ?thesis by (simp add: fetch_pages_not_json)
  next
    case (last_page s result)
    then show ?thesis by (simp add: fetch_pages_last_page)
  next
    case (more s result)
    with Suc.prems Suc.IH [of "Suc page" "process_page result st"] show ?thesis
      by (simp add: fetch_pages_more responses_prepend_request)
  qed
qed

lemma pages_of_rate_limited [simp]: "pages_of (Response 429 b # rs) = pages_of rs"
  by (cases b) simp_all

lemma pages_of_not_ok [simp]: "\<not> ok s \<Longrightarrow> pages_of (Response s b # rs) = pages_of rs"
  by (cases b) simp_all

lemma undecodable_rate_limited [simp]: "\<not> undecodable (Response 429 b)"
  by (cases b) simp_all

lemma undecodable_not_ok [simp]: "\<not> ok s \<Longrightarrow> \<not> undecodable (Response s b)"
  by (cases b) simp_all

lemma pages_of_append: "pages_of (xs @ ys) = pages_of xs @ pages_of ys"
  by (induction xs rule: pages_of.induct) simp_all

lemma fetch_pages_result:
  "snd (fetch_pages feed page n st) =
     (if responses (fst (fetch_pages feed page n st)) \<noteq> []
         \<and> undecodable (last (responses (fst (fetch_pages feed page n st))))
      then Inl JSONDecodeError
      else Inr (all_posts (accumulate (pages_of (responses (fst (fetch_pages feed page n st)))) st)))"
proof (induction n arbitrary: page st)
  case 0
  show ?case by simp
next
  case (Suc n)
  show ?case
  proof (cases "feed page (request_data st)" rule: response_cases)
    case exception
    then show ?thesis by (simp add: fetch_pages_exception)
  next
    case (rate_limited b)
    with Suc.IH [of "Suc page" st] show ?thesis
      by (simp add: fetch_pages_rate_limited responses_prepend_request snd_prepend not_ok_429)
  next
    case (not_ok s b)
    then show ?thesis by (simp add: fetch_pages_not_ok)
  next
    case (not_json s)
    then show ?thesis by (simp add: fetch_pages_not_json)
  next
    case (last_page s result)
    then show ?thesis by (simp add: fetch_pages_last_page)
  next
    case (more s result)
    with Suc.IH [of "Suc page" "process_page result st"] show ?thesis
      by (simp add: fetch_pages_more responses_prepend_request snd_prepend)
  qed
qed

lemma failed_not_goes_on: "failed r \<Longrightarrow> \<not> goes_on r"
  by (cases r) auto

lemma failed_not_undecodable: "failed r \<Longrightarrow> \<not> undecodable r"
  by (cases r rule: undecodable.cases) auto

lemma failed_not_page: "failed r \<Longrightarrow> pages_of (rs @ [r]) = pages_of rs"
  by (cases r) (simp_all add: pages_of_append)

lemma no_more_not_goes_on: "no_more r \<Longrightarrow> \<not> goes_on r"
  by (cases r rule: no_more.cases) auto

text \<open>One iteration of the loop, for evaluating a call on a concrete feed.\<close>

lemma fetch_pages_unroll:
  "0 < n \<Longrightarrow> fetch_pages feed page n st =
     (let r = feed page (request_data st);
          ev = Request page (request_data st) r
      in case r of
           RequestException \<Rightarrow> ([ev], Inr (all_posts st))
         | Response status_code body \<Rightarrow>
             if status_code = 429
             then prepend [ev, Sleep 30 60] (fetch_pages feed (Suc page) (n - 1) st)
             else if \<not> ok status_code then ([ev], Inr (all_posts st))
             else (case body of
                     NotJson \<Rightarrow> ([ev], Inl JSONDecodeError)
                   | Json result \<Rightarrow>
                       let st' = process_page result st
                       in if \<not> pg_more_available result then ([ev], Inr (all_posts st'))
                          else prepend [ev, Sleep (3 / 2) 3]
                                 (fetch_pages feed (Suc page) (n - 1) st')))"
  by (cases n) (auto simp: fetch_pages.simps(2) Let_def split: response.splits body.splits)

lemmas run_feed =
  fetch_hashtag_posts_def fetch_pages_unroll initial_state_def request_data_def
  process_page_def prepend_def ok_def Let_def parse_media_def

text \<open>
  Claim C8. A call performs at most \<open>max_pages\<close> requests; a successful answer that
  reports \<open>more_available = false\<close> is the last request of the call; and a call that
  performs fewer than \<open>max_pages\<close> requests has stopped on an answer after which the loop
  does not go on (no further pages, a failure, or a body that is not JSON).
\<close>

theorem pagination_stops:
  "length (responses (fst (fetch_hashtag_posts feed max_pages))) \<le> nat max_pages
   \<and> (\<forall>j < length (responses (fst (fetch_hashtag_posts feed max_pages))).
         no_more (responses (fst (fetch_hashtag_posts feed max_pages)) ! j)
         \<longrightarrow> Suc j = length (responses (fst (fetch_hashtag_posts feed max_pages))))
   \<and> (length (responses (fst (fetch_hashtag_posts feed max_pages))) < nat max_pages
        \<longrightarrow> responses (fst (fetch_hashtag_posts feed max_pages)) \<noteq> []
          \<and> \<not> goes_on (last (responses (fst (fetch_hashtag_posts feed max_pages)))))"
proof (intro conjI allI impI)
  show "length (responses (fst (fetch_hashtag_posts feed max_pages))) \<le> nat max_pages"
    unfolding fetch_hashtag_posts_def by (rule length_responses_le)
next
  fix j
  assume "j < length (responses (fst (fetch_hashtag_posts feed max_pages)))"
    and "no_more (responses (fst (fetch_hashtag_posts feed max_pages)) ! j)"
  then show "Suc j = length (responses (fst (fetch_hashtag_posts feed max_pages)))"
    unfolding fetch_hashtag_posts_def
    by (intro stop_is_last no_more_not_goes_on)
next
  assume short: "length (responses (fst (fetch_hashtag_posts feed max_pages))) < nat max_pages"
  then show "responses (fst (fetch_hashtag_posts feed max_pages)) \<noteq> []"
    unfolding fetch_hashtag_posts_def by (simp add: early_stop_reason)
  from short show "\<not> goes_on (last (responses (fst (fetch_hashtag_posts feed max_pages))))"
    unfolding fetch_hashtag_posts_def by (simp add: early_stop_reason)
qed

text \<open>
  The feed \<open>feed_two_pages\<close> reports \<open>more_available = false\<close> on its second page: a call
  with \<open>max_pages = 20\<close> performs exactly two requests.
\<close>

theorem pagination_stops_witness:
  "responses (fst (fetch_hashtag_posts feed_two_pages 20))
     = [Response 200 (Json page_one), Response 200 (Json page_two)]
   \<and> no_more (responses (fst (fetch_hashtag_posts feed_two_pages 20)) ! 1)
   \<and> length (responses (fst (fetch_hashtag_posts feed_two_pages 20))) = 2
   \<and> length (responses (fst (fetch_hashtag_posts feed_two_pages 20))) < nat 20
   \<and> \<not> goes_on (last (responses (fst (fetch_hashtag_posts feed_two_pages 20))))"
proof -
  have rs: "responses (fst (fetch_hashtag_posts feed_two_pages 20))
     = [Response 200 (Json page_one), Response 200 (Json page_two)]"
    by (simp add: run_feed feed_two_pages_def page_one_def page_two_def media_abc_def
        media_cy_def)
  have last_page: "no_more (responses (fst (fetch_hashtag_posts feed_two_pages 20)) ! 1)"
    by (simp add: rs ok_def page_two_def)
  have one: "1 < length (responses (fst (fetch_hashtag_posts feed_two_pages 20)))"
    by (simp add: rs)
  from pagination_stops [of feed_two_pages 20] one last_page
  have len: "length (responses (fst (fetch_hashtag_posts feed_two_pages 20))) = 2"
    by (metis Suc_1)
  then have short: "length (responses (fst (fetch_hashtag_posts feed_two_pages 20))) < nat 20"
    by simp
  with pagination_stops [of feed_two_pages 20]
  have "\<not> goes_on (last (responses (fst (fetch_hashtag_posts feed_two_pages 20))))"
    by blast
  with rs last_page len short show ?thesis by blast
qed

lemma accumulate_append: "accumulate (xs @ ys) st = accumulate ys (accumulate xs st)"
  by (induction xs arbitrary: st) simp_all

lemma process_page_extends: "\<exists>new. all_posts (process_page result st) = all_posts st @ new"
  by (simp add: process_page_def split: prod.splits)

lemma accumulate_extends: "\<exists>new. all_posts (accumulate pgs st) = all_posts st @ new"
proof (induction pgs arbitrary: st)
  case Nil
  show ?case by simp
next
  case (Cons pg pgs)
  from Cons.IH [of "process_page pg st"] process_page_extends [of pg st]
  show ?case by auto
qed

lemma not_goes_on_is_last:
  assumes "r \<in> set (responses (fst (fetch_pages feed page n st)))" and "\<not> goes_on r"
  shows "\<exists>before. responses (fst (fetch_pages feed page n st)) = before @ [r]"
proof -
  let ?rs = "responses (fst (fetch_pages feed page n st))"
  from assms(1) have ne: "?rs \<noteq> []" by auto
  then have split: "?rs = butlast ?rs @ [last ?rs]" by simp
  from assms(2) have "r \<notin> set (butlast ?rs)"
    using butlast_goes_on [of r feed page n st] by blast
  with assms(1) split have "r = last ?rs"
    by (metis Un_iff empty_iff empty_set insert_iff list.simps(15) set_append)
  with split show ?thesis by metis
qed

text \<open>
  Claim C6, as the code has it. If some request of a call is answered by a transport
  failure or by an error status other than 429 (a status from 400 to 599, for which
  \<open>r.ok\<close> is false), that request is the last one, no error is raised, and the call
  returns the posts accumulated from the pages fetched before it: the result of running
  the page handling of the loop over exactly those pages. The posts collected up to any
  earlier page are all in the result, in order.
\<close>

theorem fetch_failure_returns_accumulated:
  assumes "r \<in> set (responses (fst (fetch_hashtag_posts feed max_pages)))" and "failed r"
  shows "\<exists>before. responses (fst (fetch_hashtag_posts feed max_pages)) = before @ [r]
       \<and> snd (fetch_hashtag_posts feed max_pages)
           = Inr (all_posts (accumulate (pages_of before) initial_state))
       \<and> (\<forall>pgs1 pgs2. pages_of before = pgs1 @ pgs2 \<longrightarrow>
             (\<exists>later. all_posts (accumulate (pages_of before) initial_state)
                        = all_posts (accumulate pgs1 initial_state) @ later))"
proof -
  let ?run = "fetch_pages feed 0 (nat max_pages) initial_state"
  from assms have "r \<in> set (responses (fst ?run))"
    by (simp add: fetch_hashtag_posts_def)
  moreover from assms(2) have "\<not> goes_on r" by (rule failed_not_goes_on)
  ultimately obtain before where before: "responses (fst ?run) = before @ [r]"
    using not_goes_on_is_last by blast
  from assms(2) have "\<not> undecodable r" by (rule failed_not_undecodable)
  with before have "snd ?run = Inr (all_posts (accumulate (pages_of (before @ [r])) initial_state))"
    using fetch_pages_result [of feed 0 "nat max_pages" initial_state] by simp
  with assms(2) have res: "snd ?run = Inr (all_posts (accumulate (pages_of before) initial_state))"
    by (simp add: failed_not_page)
  have "\<exists>later. all_posts (accumulate (pages_of before) initial_state)
                        = all_posts (accumulate pgs1 initial_state) @ later"
    if "pages_of before = pgs1 @ pgs2" for pgs1 pgs2
    using that accumulate_extends [of pgs2 "accumulate pgs1 initial_state"]
    by (simp add: accumulate_append)
  with before res show ?thesis
    unfolding fetch_hashtag_posts_def by blast
qed

text \<open>
  The feed \<open>feed_failing\<close> serves one page and then fails at the transport level: the call
  returns the post of the first page.
\<close>

theorem fetch_failure_returns_accumulated_witness:
  "RequestException \<in> set (responses (fst (fetch_hashtag_posts feed_failing 20)))
   \<and> failed RequestException
   \<and> responses (fst (fetch_hashtag_posts feed_failing 20))
       = [Response 200 (Json page_one)] @ [RequestException]
   \<and> snd (fetch_hashtag_posts feed_failing 20)
       = Inr (all_posts (accumulate (pages_of [Response 200 (Json page_one)]) initial_state))
   \<and> all_posts (accumulate (pages_of [Response 200 (Json page_one)]) initial_state)
       = [parse_media media_abc]"
proof -
  have rs: "responses (fst (fetch_hashtag_posts feed_failing 20))
       = [Response 200 (Json page_one)] @ [RequestException]"
    by (simp add: run_feed feed_failing_def page_one_def media_abc_def)
  then have mem: "RequestException \<in> set (responses (fst (fetch_hashtag_posts feed_failing 20)))"
    by simp
  have failed: "failed RequestException" by simp
  from fetch_failure_returns_accumulated [OF mem failed] rs
  have "snd (fetch_hashtag_posts feed_failing 20)
       = Inr (all_posts (accumulate (pages_of [Response 200 (Json page_one)]) initial_state))"
    by auto
  moreover have "all_posts (accumulate (pages_of [Response 200 (Json page_one)]) initial_state)
       = [parse_media media_abc]"
    by (simp add: ok_def process_page_def initial_state_def page_one_def media_abc_def)
  ultimately show ?thesis using rs mem failed by blast
qed

text \<open>
  Claim C6 as stated fails on the code: the loop stops early on \<open>not r.ok\<close>, which is
  false for every status below 400, and not on every status that is not a success. On
  \<open>feed_not_modified\<close> the second request is answered with status 304 and no body: the
  call goes on to \<open>r.json()\<close>, which raises, and the post of the first page is lost.
\<close>

theorem fetch_not_modified_raises:
  "fetch_hashtag_posts feed_not_modified 20
     = ([Request 0 None (Response 200 (Json page_one)), Sleep (3 / 2) 3,
         Request 1 (Some ''cursor1'') (Response 304 NotJson)],
        Inl JSONDecodeError)
   \<and> ok 304
   \<and> all_posts (accumulate (pages_of [Response 200 (Json page_one)]) initial_state)
       = [parse_media media_abc]"
  by (simp add: run_feed feed_not_modified_def page_one_def media_abc_def
      accumulate.simps pages_of.simps)

lemma trace_empty: "fst (fetch_pages feed page 0 st) = []"
  by simp

lemma trace_head:
  "\<exists>rest. fst (fetch_pages feed page (Suc n) st)
     = Request page (request_data st) (feed page (request_data st)) # rest"
  by (cases "feed page (request_data st)" rule: response_cases)
    (simp_all add: fetch_pages_exception fetch_pages_rate_limited fetch_pages_not_ok
      fetch_pages_not_json fetch_pages_last_page fetch_pages_more prepend_def Let_def)

lemma single_request:
  assumes "[Request p c0 r0] = pre @ Request k c r # post"
  shows "r = r0"
  using assms by (cases pre) auto

lemma trace_start:
  "fst (fetch_pages feed page n st) = [] \<and> n = 0
   \<or> (\<exists>r rest. fst (fetch_pages feed page n st) = Request page (request_data st) r # rest)"
proof (cases n)
  case 0
  then show ?thesis by simp
next
  case (Suc m)
  with trace_head [of feed page m st] show ?thesis by blast
qed

lemma rate_limited_then_sleep:
  assumes "fst (fetch_pages feed page n st) = pre @ Request k c r # post" and "rate_limited r"
  shows "\<exists>post'. post = Sleep 30 60 # post'
           \<and> (post' = [] \<and> Suc k = page + n
              \<or> (\<exists>r' post''. post' = Request (Suc k) c r' # post''))"
  using assms
proof (induction n arbitrary: page st pre)
  case 0
  then show ?case by simp
next
  case (Suc n)
  let ?c = "request_data st"
  show ?case
  proof (cases "feed page ?c" rule: response_cases)
    case exception
    with Suc.prems(1) have "r = RequestException"
      using single_request [of page ?c RequestException pre k c r post]
      by (simp add: fetch_pages_exception)
    with Suc.prems(2) show ?thesis by simp
  next
    case (rate_limited b)
    let ?T = "fst (fetch_pages feed (Suc page) n st)"
    from rate_limited have tr: "fst (fetch_pages feed page (Suc n) st)
        = Request page ?c (Response 429 b) # Sleep 30 60 # ?T"
      by (simp add: fetch_pages_rate_limited prepend_def)
    show ?thesis
    proof (cases pre)
      case Nil
      with Suc.prems(1) tr have k: "k = page" and c: "c = ?c" and post: "post = Sleep 30 60 # ?T"
        by auto
      from trace_start [of feed "Suc page" n st] show ?thesis
      proof
        assume "?T = [] \<and> n = 0"
        with k post show ?thesis by simp
      next
        assume "\<exists>r' rest. ?T = Request (Suc page) ?c r' # rest"
        with k c post show ?thesis by auto
      qed
    next
      case (Cons e pre1)
      with Suc.prems(1) tr have "Sleep 30 60 # ?T = pre1 @ Request k c r # post"
        by simp
      then obtain pre2 where "?T = pre2 @ Request k c r # post"
        by (cases pre1) auto
      from Suc.IH [OF this Suc.prems(2)] show ?thesis by simp
    qed
  next
    case (not_ok s b)
    with Suc.prems(1) have "r = Response s b"
      using single_request [of page ?c "Response s b" pre k c r post]
      by (simp add: fetch_pages_not_ok)
    with Suc.prems(2) not_ok(2) show ?thesis by simp
  next
    case (not_json s)
    with Suc.prems(1) have "r = Response s NotJson"
      using single_request [of page ?c "Response s NotJson" pre k c r post]
      by (simp add: fetch_pages_not_json)
    with Suc.prems(2) not_json(2) show ?thesis by simp
  next
    case (last_page s result)
    with Suc.prems(1) have "r = Response s (Json result)"
      using single_request [of page ?c "Response s (Json result)" pre k c r post]
      by (simp add: fetch_pages_last_page)
    with Suc.prems(2) last_page(2) show ?thesis by simp
  next
    case (more s result)
    let ?T = "fst (fetch_pages feed (Suc page) n (process_page result st))"
    from more have tr: "fst (fetch_pages feed page (Suc n) st)
        = Request page ?c (Response s (Json result)) # Sleep (3 / 2) 3 # ?T"
      by (simp add: fetch_pages_more prepend_def)
    show ?thesis
    proof (cases pre)
      case Nil
      with Suc.prems(1) tr have "r = Response s (Json result)" by auto
      with Suc.prems(2) more(2) show ?thesis by simp
    next
      case (Cons e pre1)
      with Suc.prems(1) tr have "Sleep (3 / 2) 3 # ?T = pre1 @ Request k c r # post"
        by simp
      then obtain pre2 where "?T = pre2 @ Request k c r # post"
        by (cases pre1) auto
      from Suc.IH [OF this Suc.prems(2)] show ?thesis by simp
    qed
  qed
qed

text \<open>The request of iteration \<open>k\<close> is made in one of the iterations of the loop.\<close>

lemma request_index:
  "Request k c r \<in> set (fst (fetch_pages feed page n st)) \<Longrightarrow> page \<le> k \<and> k < page + n"
proof (induction n arbitrary: page st)
  case 0
  then show ?case by simp
next
  case (Suc n)
  show ?case
  proof (cases "feed page (request_data st)" rule: response_cases)
    case exception
    with Suc.prems show ?thesis by (simp add: fetch_pages_exception)
  next
    case (rate_limited b)
    with Suc.prems
    have "k = page \<or> Request k c r \<in> set (fst (fetch_pages feed (Suc page) n st))"
      by (auto simp: fetch_pages_rate_limited prepend_def)
    with Suc.IH [of "Suc page" st] show ?thesis by auto
  next
    case (not_ok s b)
    with Suc.prems show ?thesis by (simp add: fetch_pages_not_ok)
  next
    case (not_json s)
    with Suc.prems show ?thesis by (simp add: fetch_pages_not_json)
  next
    case (last_page s result)
    with Suc.prems show ?thesis by (simp add: fetch_pages_last_page)
  next
    case (more s result)
    with Suc.prems
    have "k = page \<or> Request k c r
        \<in> set (fst (fetch_pages feed (Suc page) n (process_page result st)))"
      by (auto simp: fetch_pages_more prepend_def)
    with Suc.IH [of "Suc page" "process_page result st"] show ?thesis by auto
  qed
qed

lemma rate_limited_or_page:
  "length (filter rate_limited [r]) + length (pages_of [r]) \<le> 1"
proof (cases r)
  case RequestException
  then show ?thesis by simp
next
  case (Response s b)
  then show ?thesis by (cases b) (auto simp: not_ok_429)
qed

lemma rate_limited_pages_le:
  "length (filter rate_limited rs) + length (pages_of rs) \<le> length rs"
proof (induction rs)
  case Nil
  show ?case by simp
next
  case (Cons r rs)
  have "pages_of (r # rs) = pages_of [r] @ pages_of rs"
    using pages_of_append [of "[r]" rs] by simp
  moreover have "filter rate_limited (r # rs) = filter rate_limited [r] @ filter rate_limited rs"
    by simp
  ultimately have "length (filter rate_limited (r # rs)) + length (pages_of (r # rs))
      = (length (filter rate_limited [r]) + length (pages_of [r]))
        + (length (filter rate_limited rs) + length (pages_of rs))"
    by (simp only: length_append)
  with rate_limited_or_page [of r] Cons.IH show ?case by simp
qed

text \<open>
  Claim C3, as the code has it. An answer with status 429 is followed by a sleep of
  \<open>random.uniform(30, 60)\<close> seconds; the next request, if there is one, is made in the
  next iteration with the same \<open>max_id\<close> (the same page is asked for again); there is no
  next request exactly when the rate-limited request was made in the last of the
  \<open>max_pages\<close> iterations: after a 429 in the last iteration the call only sleeps. Every
  request takes one iteration, so the rate-limited answers and the pages fetched are
  together at most \<open>max_pages\<close>.
\<close>

theorem rate_limit_retry_takes_iteration:
  "length (filter rate_limited (responses (fst (fetch_hashtag_posts feed max_pages))))
     + length (pages_of (responses (fst (fetch_hashtag_posts feed max_pages)))) \<le> nat max_pages
   \<and> (\<forall>pre k c r post.
         fst (fetch_hashtag_posts feed max_pages) = pre @ Request k c r # post \<and> rate_limited r
         \<longrightarrow> (\<exists>post'. post = Sleep 30 60 # post'
                \<and> (post' = [] \<and> Suc k = nat max_pages
                   \<or> (\<exists>r' post''. post' = Request (Suc k) c r' # post''))))
   \<and> (\<forall>pre k c r post.
         fst (fetch_hashtag_posts feed max_pages) = pre @ Request k c r # post \<and> rate_limited r
           \<and> Suc k = nat max_pages
         \<longrightarrow> post = [Sleep 30 60])"
proof (intro conjI allI impI)
  let ?rs = "responses (fst (fetch_hashtag_posts feed max_pages))"
  have "length (filter rate_limited ?rs) + length (pages_of ?rs) \<le> length ?rs"
    by (rule rate_limited_pages_le)
  also have "\<dots> \<le> nat max_pages"
    unfolding fetch_hashtag_posts_def by (rule length_responses_le)
  finally show "length (filter rate_limited ?rs) + length (pages_of ?rs) \<le> nat max_pages" .
next
  fix pre k c r post
  assume "fst (fetch_hashtag_posts feed max_pages) = pre @ Request k c r # post \<and> rate_limited r"
  then have "fst (fetch_pages feed 0 (nat max_pages) initial_state) = pre @ Request k c r # post"
    and "rate_limited r"
    by (simp_all add: fetch_hashtag_posts_def)
  from rate_limited_then_sleep [OF this]
  show "\<exists>post'. post = Sleep 30 60 # post'
                \<and> (post' = [] \<and> Suc k = nat max_pages
                   \<or> (\<exists>r' post''. post' = Request (Suc k) c r' # post''))"
    by simp
next
  fix pre k c r post
  assume h: "fst (fetch_hashtag_posts feed max_pages) = pre @ Request k c r # post
      \<and> rate_limited r \<and> Suc k = nat max_pages"
  then have tr: "fst (fetch_pages feed 0 (nat max_pages) initial_state)
      = pre @ Request k c r # post"
    and "rate_limited r" and last: "Suc k = nat max_pages"
    by (simp_all add: fetch_hashtag_posts_def)
  from rate_limited_then_sleep [OF this(1,2)]
  have "\<exists>post'. post = Sleep 30 60 # post'
                \<and> (post' = [] \<and> Suc k = nat max_pages
                   \<or> (\<exists>r' post''. post' = Request (Suc k) c r' # post''))"
    by simp
  then obtain post' where both: "post = Sleep 30 60 # post'
                \<and> (post' = [] \<and> Suc k = nat max_pages
                   \<or> (\<exists>r' post''. post' = Request (Suc k) c r' # post''))" ..
  from both have post: "post = Sleep 30 60 # post'" by (rule conjunct1)
  from both have next_request: "post' = [] \<and> Suc k = nat max_pages
        \<or> (\<exists>r' post''. post' = Request (Suc k) c r' # post'')"
    by (rule conjunct2)
  have "post' = []"
  proof (rule ccontr)
    assume "post' \<noteq> []"
    with next_request have "\<exists>r' post''. post' = Request (Suc k) c r' # post''"
      by simp
    then obtain r' post'' where "post' = Request (Suc k) c r' # post''"
      by (elim exE)
    with tr post
    have "Request (Suc k) c r' \<in> set (fst (fetch_pages feed 0 (nat max_pages) initial_state))"
      by simp
    from request_index [OF this] last show False by simp
  qed
  with post show "post = [Sleep 30 60]" by simp
qed

text \<open>
  On \<open>feed_rate_limited\<close> with \<open>max_pages = 3\<close> the first request is answered with 429; the
  call sleeps and asks for the same page in the second iteration.
\<close>

theorem rate_limit_retry_takes_iteration_witness:
  "fst (fetch_hashtag_posts feed_rate_limited 3)
     = [] @ Request 0 None (Response 429 NotJson) #
         [Sleep 30 60,
          Request 1 None (Response 200 (Json page_one)), Sleep (3 / 2) 3,
          Request 2 (Some ''cursor1'') (Response 200 (Json page_one)), Sleep (3 / 2) 3]
   \<and> rate_limited (Response 429 NotJson)
   \<and> (\<exists>post'. [Sleep 30 60,
          Request 1 None (Response 200 (Json page_one)), Sleep (3 / 2) 3,
          Request 2 (Some ''cursor1'') (Response 200 (Json page_one)), Sleep (3 / 2) 3]
         = Sleep 30 60 # post'
         \<and> (post' = [] \<and> Suc 0 = nat 3
            \<or> (\<exists>r' post''. post' = Request (Suc 0) None r' # post'')))
   \<and> length (filter rate_limited (responses (fst (fetch_hashtag_posts feed_rate_limited 3))))
       + length (pages_of (responses (fst (fetch_hashtag_posts feed_rate_limited 3)))) \<le> nat 3"
proof -
  have tr: "fst (fetch_hashtag_posts feed_rate_limited 3)
     = [] @ Request 0 None (Response 429 NotJson) #
         [Sleep 30 60,
          Request 1 None (Response 200 (Json page_one)), Sleep (3 / 2) 3,
          Request 2 (Some ''cursor1'') (Response 200 (Json page_one)), Sleep (3 / 2) 3]"
    by (simp add: run_feed feed_rate_limited_def page_one_def media_abc_def)
  have rl: "rate_limited (Response 429 NotJson)" by simp
  from rate_limit_retry_takes_iteration [of feed_rate_limited 3, THEN conjunct1]
    rate_limit_retry_takes_iteration [of feed_rate_limited 3, THEN conjunct2, THEN conjunct1]
    tr rl
  show ?thesis by blast
qed

text \<open>
  Claim C3 as stated fails on the code: a rate-limited request uses up one of the
  \<open>max_pages\<close> iterations. On \<open>feed_rate_limited\<close> a call with \<open>max_pages = 2\<close> makes two
  requests and fetches one page, although that page reports more pages; a call with
  \<open>max_pages = 1\<close> makes the one rate-limited request, sleeps and returns no post.
\<close>

theorem rate_limit_uses_up_iteration:
  "responses (fst (fetch_hashtag_posts feed_rate_limited 2))
     = [Response 429 NotJson, Response 200 (Json page_one)]
   \<and> pg_more_available page_one
   \<and> length (pages_of (responses (fst (fetch_hashtag_posts feed_rate_limited 2)))) = 1
   \<and> fetch_hashtag_posts feed_rate_limited 1
       = ([Request 0 None (Response 429 NotJson), Sleep 30 60], Inr [])"
  by (simp add: run_feed feed_rate_limited_def page_one_def media_abc_def)

section \<open>Properties of the harvest orchestrator\<close>

lemma posts_statement_codes:
  "r_code ` set (posts_statement rows (post_values p))
     = insert (get (p_code p)) (r_code ` set rows)"
proof (cases "\<exists>old \<in> set rows. post_conflict (post_values p) old")
  case True
  have same: "r_code (if post_conflict (post_values p) old
                      then post_do_update (post_values p) old else old) = r_code old" for old
    by (simp add: post_do_update_def)
  from True have "get (p_code p) \<in> r_code ` set rows"
    by (force simp: post_conflict_def post_values_def)
  then have "insert (get (p_code p)) (r_code ` set rows) = r_code ` set rows"
    by auto
  moreover have "r_code ` set (posts_statement rows (post_values p)) = r_code ` set rows"
  proof -
    from True have m: "map r_code (posts_statement rows (post_values p)) = map r_code rows"
      by (simp add: posts_statement_def o_def same)
    have "r_code ` set (posts_statement rows (post_values p))
        = set (map r_code (posts_statement rows (post_values p)))"
      by simp
    also have "\<dots> = set (map r_code rows)" by (simp only: m)
    also have "\<dots> = r_code ` set rows" by simp
    finally show ?thesis .
  qed
  ultimately show ?thesis by simp
next
  case False
  then show ?thesis
    by (simp add: posts_statement_def post_values_def)
qed

lemma subscript_get: "subscript f = Some code \<Longrightarrow> get f = code \<and> get_default f d = code"
  by (cases f) auto

lemma upsert_post_sqlite:
  "upsert_post (SQLiteStorage db) p = Inr (written, s1) \<longleftrightarrow>
     (\<exists>db1. s1 = SQLiteStorage db1 \<and> sqlite_upsert_post db p = Inr (written, db1))"
  by (cases "sqlite_upsert_post db p") auto

lemma upsert_user_sqlite:
  "upsert_user (SQLiteStorage db) u = Inr (written, s1) \<longleftrightarrow>
     (\<exists>db1. s1 = SQLiteStorage db1 \<and> sqlite_upsert_user db u = Inr (written, db1))"
  by (cases "sqlite_upsert_user db u") auto

lemma sqlite_upsert_post_returns:
  assumes "sqlite_upsert_post db p = Inr (written, db1)"
  shows "executed db1 = Suc (executed db)" and "faults db1 = faults db"
    and "written \<Longrightarrow> posts db1 = posts_statement (posts db) (post_values p)"
    and "\<not> written \<Longrightarrow> posts db1 = posts db \<and> faults db (executed db)"
  using assms by (auto simp: sqlite_upsert_post_def Let_def split: if_splits)

lemma sqlite_upsert_user_returns:
  assumes "sqlite_upsert_user db u = Inr (written, db1)"
  shows "executed db1 = Suc (executed db)" and "faults db1 = faults db"
    and "posts db1 = posts db"
  using assms by (auto simp: sqlite_upsert_user_def Let_def split: if_splits)

lemma json_upsert_post_returns:
  "js_existing_codes (snd (json_upsert_post js p))
     = insert (get_default (p_code p) '''') (js_existing_codes js)"
  by (simp add: json_upsert_post_def flush_posts_def Let_def)

lemma json_upsert_user_returns:
  "js_existing_codes (snd (json_upsert_user js u)) = js_existing_codes js"
  by (simp add: json_upsert_user_def flush_users_def Let_def)


lemma upsert_post_step:
  assumes "upsert_post s p = Inr (written, s1)"
  shows "statements s \<le> statements s1" and "rejects s1 = rejects s"
    and "get_existing_codes s \<subseteq> get_existing_codes s1"
    and "subscript (p_code p) = Some code \<Longrightarrow> no_write_rejected s s1
           \<Longrightarrow> code \<in> get_existing_codes s1"
proof -
  have "statements s \<le> statements s1 \<and> rejects s1 = rejects s
      \<and> get_existing_codes s \<subseteq> get_existing_codes s1
      \<and> (subscript (p_code p) = Some code \<longrightarrow> no_write_rejected s s1
           \<longrightarrow> code \<in> get_existing_codes s1)"
  proof (cases s)
    case (SQLiteStorage db)
    from assms [unfolded SQLiteStorage upsert_post_sqlite]
    obtain db1 where s1: "s1 = SQLiteStorage db1"
      and run: "sqlite_upsert_post db p = Inr (written, db1)"
      by blast
    note r = sqlite_upsert_post_returns [OF run]
    have rej: "rejects s1 = rejects s"
      using SQLiteStorage s1 r(2) by (auto simp: fun_eq_iff)
    have codes: "get_existing_codes s \<subseteq> get_existing_codes s1"
      using SQLiteStorage s1 r(3,4)
      by (cases written) (auto simp: sqlite_get_existing_codes_def posts_statement_codes)
    have new: "code \<in> get_existing_codes s1"
      if code: "subscript (p_code p) = Some code" and ok: "no_write_rejected s s1"
    proof (cases written)
      case True
      with r(3) s1 subscript_get [OF code, of "''''"] show ?thesis
        by (simp add: sqlite_get_existing_codes_def posts_statement_codes)
    next
      case False
      with r(4) have "faults db (executed db)" by simp
      moreover from ok SQLiteStorage s1 r(1) have "\<not> faults db (executed db)"
        by (simp add: no_write_rejected_def)
      ultimately show ?thesis by simp
    qed
    from SQLiteStorage s1 r(1) rej codes new show ?thesis by simp
  next
    case (JSONStorage js)
    with assms have s1: "s1 = JSONStorage (snd (json_upsert_post js p))"
      by (cases "json_upsert_post js p") auto
    have "code \<in> get_existing_codes s1" if code: "subscript (p_code p) = Some code"
      using s1 subscript_get [OF code, of "''''"]
      by (simp add: json_get_existing_codes_def json_upsert_post_returns)
    with JSONStorage s1 show ?thesis
      by (auto simp: json_get_existing_codes_def json_upsert_post_returns fun_eq_iff)
  qed
  then show "statements s \<le> statements s1" and "rejects s1 = rejects s"
    and "get_existing_codes s \<subseteq> get_existing_codes s1"
    and "subscript (p_code p) = Some code \<Longrightarrow> no_write_rejected s s1
           \<Longrightarrow> code \<in> get_existing_codes s1"
    by simp_all
qed

lemma upsert_user_step:
  assumes "upsert_user s u = Inr (written, s1)"
  shows "statements s \<le> statements s1" and "rejects s1 = rejects s"
    and "get_existing_codes s1 = get_existing_codes s"
proof -
  have "statements s \<le> statements s1 \<and> rejects s1 = rejects s
      \<and> get_existing_codes s1 = get_existing_codes s"
  proof (cases s)
    case (SQLiteStorage db)
    from assms [unfolded SQLiteStorage upsert_user_sqlite]
    obtain db1 where s1: "s1 = SQLiteStorage db1"
      and run: "sqlite_upsert_user db u = Inr (written, db1)"
      by blast
    note r = sqlite_upsert_user_returns [OF run]
    from SQLiteStorage s1 r show ?thesis
      by (auto simp: sqlite_get_existing_codes_def fun_eq_iff)
  next
    case (JSONStorage js)
    with assms have s1: "s1 = JSONStorage (snd (json_upsert_user js u))"
      by (cases "json_upsert_user js u") auto
    with JSONStorage show ?thesis
      by (auto simp: json_get_existing_codes_def json_upsert_user_returns fun_eq_iff)
  qed
  then show "statements s \<le> statements s1" and "rejects s1 = rejects s"
    and "get_existing_codes s1 = get_existing_codes s"
    by simp_all
qed

lemma no_write_rejected_part:
  assumes "no_write_rejected s s2" and "statements s \<le> statements s1"
    and "statements s1 \<le> statements s2" and "rejects s1 = rejects s"
  shows "no_write_rejected s s1" and "no_write_rejected s1 s2"
  using assms by (auto simp: no_write_rejected_def)

lemma attach_image_code:
  "attach_image e download_images s post = Inr post1 \<Longrightarrow> p_code post1 = p_code post"
  by (auto simp: attach_image_def Let_def split: option.splits if_splits sum.splits)

text \<open>One iteration of the loop that goes on to the next post.\<close>

lemma store_posts_next:
  assumes "store_posts e download_images (post # rest) s users_seen stored = (s1, users_seen1, Inr n)"
  obtains post1 sa sb seen written
  where "attach_image e download_images s post = Inr post1"
    and "sa = s \<or> (\<exists>u user_written. upsert_user s u = Inr (user_written, sa))"
    and "upsert_post sa post1 = Inr (written, sb)"
    and "store_posts e download_images rest sb seen (stored + 1) = (s1, users_seen1, Inr n)"
proof -
  let ?username = "case get (p_username post) of None \<Rightarrow> '''' | Some u \<Rightarrow> u"
  from assms obtain post1 where att: "attach_image e download_images s post = Inr post1"
    by (cases "attach_image e download_images s post") (simp_all add: Let_def)
  let ?user = "if ?username \<noteq> '''' then upsert_user s (minimal_user ?username post1)
               else Inr (True, s)"
  from assms att obtain user_written sa where user: "?user = Inr (user_written, sa)"
    by (cases ?user) (auto simp: Let_def)
  then have sa: "sa = s \<or> (\<exists>u user_written. upsert_user s u = Inr (user_written, sa))"
    by (auto split: if_splits)
  let ?seen = "if ?username \<noteq> '''' \<and> ?username \<notin> set users_seen
               then users_seen @ [?username] else users_seen"
  from assms att user obtain written sb where post: "upsert_post sa post1 = Inr (written, sb)"
    by (cases "upsert_post sa post1") (auto simp: Let_def)
  from assms att user post
  have "store_posts e download_images rest sb ?seen (stored + 1) = (s1, users_seen1, Inr n)"
    by (simp add: Let_def)
  with att sa post show ?thesis by (rule that)
qed

lemma store_posts_codes:
  assumes "store_posts e download_images new_posts s users_seen stored = (s1, users_seen1, Inr n)"
  shows "statements s \<le> statements s1 \<and> rejects s1 = rejects s
    \<and> get_existing_codes s \<subseteq> get_existing_codes s1
    \<and> (no_write_rejected s s1 \<longrightarrow>
         (\<forall>p \<in> set new_posts. \<forall>code. subscript (p_code p) = Some code
             \<longrightarrow> code \<in> get_existing_codes s1))"
  using assms
proof (induction new_posts arbitrary: s users_seen stored)
  case Nil
  then show ?case by simp
next
  case (Cons post rest)
  from Cons.prems show ?case
  proof (rule store_posts_next)
  fix post1 sa sb seen written
  assume att: "attach_image e download_images s post = Inr post1"
    and sa: "sa = s \<or> (\<exists>u user_written. upsert_user s u = Inr (user_written, sa))"
    and post: "upsert_post sa post1 = Inr (written, sb)"
    and run: "store_posts e download_images rest sb seen (stored + 1)
        = (s1, users_seen1, Inr n)"
  from sa have "statements s \<le> statements sa \<and> rejects sa = rejects s
      \<and> get_existing_codes sa = get_existing_codes s"
  proof
    assume "sa = s"
    then show ?thesis by simp
  next
    assume "\<exists>u user_written. upsert_user s u = Inr (user_written, sa)"
    then obtain u user_written where "upsert_user s u = Inr (user_written, sa)" by blast
    from upsert_user_step [OF this] show ?thesis by simp
  qed
  then have a1: "statements s \<le> statements sa" and a2: "rejects sa = rejects s"
    and a3: "get_existing_codes sa = get_existing_codes s"
    by simp_all
  note b1 = upsert_post_step(1) [OF post] and b2 = upsert_post_step(2) [OF post]
    and b3 = upsert_post_step(3) [OF post]
  note ih = Cons.IH [OF run]
  from ih have c1: "statements sb \<le> statements s1" by (rule conjunct1)
  from ih have c2: "rejects s1 = rejects sb" by (elim conjE)
  from ih have c3: "get_existing_codes sb \<subseteq> get_existing_codes s1" by (elim conjE)
  from ih have c4: "no_write_rejected sb s1 \<longrightarrow>
         (\<forall>p \<in> set rest. \<forall>code. subscript (p_code p) = Some code
             \<longrightarrow> code \<in> get_existing_codes s1)" by (elim conjE)
  from a1 b1 have ab: "statements s \<le> statements sb" by (rule order_trans)
  from b2 a2 have rb: "rejects sb = rejects s" by (rule trans)
  have code: "p_code post1 = p_code post"
    using att by (rule attach_image_code)
  have new: "\<forall>p \<in> set (post # rest). \<forall>c. subscript (p_code p) = Some c
      \<longrightarrow> c \<in> get_existing_codes s1" if ok: "no_write_rejected s s1"
  proof -
    note ok_b = no_write_rejected_part(1) [OF ok ab c1 rb]
      and ok_rest = no_write_rejected_part(2) [OF ok ab c1 rb]
    note ok_post = no_write_rejected_part(2) [OF ok_b a1 b1 a2]
    have here: "\<forall>c. subscript (p_code post) = Some c \<longrightarrow> c \<in> get_existing_codes s1"
    proof (intro allI impI)
      fix c
      assume "subscript (p_code post) = Some c"
      with code have "subscript (p_code post1) = Some c" by simp
      from upsert_post_step(4) [OF post this ok_post] c3 show "c \<in> get_existing_codes s1"
        by (rule rev_subsetD)
    qed
    from c4 ok_rest have "\<forall>p \<in> set rest. \<forall>code. subscript (p_code p) = Some code
             \<longrightarrow> code \<in> get_existing_codes s1"
      by (rule mp)
    with here show ?thesis by simp
  qed
  show ?thesis
  proof (intro conjI impI)
    from ab c1 show "statements s \<le> statements s1" by (rule order_trans)
    from c2 rb show "rejects s1 = rejects s" by (rule trans)
    from b3 c3 have "get_existing_codes sa \<subseteq> get_existing_codes s1" by (rule subset_trans)
    with a3 show "get_existing_codes s \<subseteq> get_existing_codes s1" by (simp only:)
    assume "no_write_rejected s s1"
    then show "\<forall>p \<in> set (post # rest). \<forall>code. subscript (p_code p) = Some code
             \<longrightarrow> code \<in> get_existing_codes s1"
      by (rule new)
  qed
  qed
qed

lemma enrich_step:
  "statements s \<le> statements (fst (enrich e to_enrich s))
   \<and> get_existing_codes (fst (enrich e to_enrich s)) = get_existing_codes s"
proof (induction to_enrich arbitrary: s)
  case Nil
  show ?case by simp
next
  case (Cons uname rest)
  show ?case
  proof (cases "profile e uname")
    case None
    with Cons.IH show ?thesis by simp
  next
    case (Some prof)
    show ?thesis
    proof (cases "upsert_user s prof")
      case (Inl err)
      with Some show ?thesis by simp
    next
      case (Inr r)
      obtain written sa where r: "r = (written, sa)" by (cases r) auto
      with Inr have step: "upsert_user s prof = Inr (written, sa)" by simp
      note u = upsert_user_step [OF step]
      show ?thesis
      proof (cases "get_default (u_followers prof) 0")
        case None
        with Some step u show ?thesis by simp
      next
        case (Some followers)
        with \<open>profile e uname = Some prof\<close> step have "enrich e (uname # rest) s = enrich e rest sa"
          by simp
        with Cons.IH [of sa] u show ?thesis by simp
      qed
    qed
  qed
qed

lemma new_posts_of_filter:
  assumes "new_posts_of existing_codes fetched = Inr new_posts"
  shows "\<forall>p \<in> set fetched. \<exists>code. subscript (p_code p) = Some code
            \<and> (code \<in> existing_codes \<or> p \<in> set new_posts)"
  using assms
proof (induction fetched arbitrary: new_posts)
  case Nil
  then show ?case by simp
next
  case (Cons p ps)
  from Cons.prems obtain code rest where code: "subscript (p_code p) = Some code"
    and rest: "new_posts_of existing_codes ps = Inr rest"
    and new: "new_posts = (if code \<notin> existing_codes then p # rest else rest)"
    by (auto split: option.splits sum.splits)
  from Cons.IH [OF rest] new code show ?case by auto
qed

lemma new_posts_of_known:
  assumes "\<forall>p \<in> set fetched. \<exists>code. subscript (p_code p) = Some code \<and> code \<in> existing_codes"
  shows "new_posts_of existing_codes fetched = Inr []"
  using assms by (induction fetched) auto

text \<open>
  Claim C1, as the code has it. If a call of \<open>scrape_hashtag\<close> has returned and no write
  between its start and its end was rejected by the database, then every post code that
  the feed delivers is in the snapshot of existing codes that a second call takes, and a
  second call on the unchanged feed (whatever its options and surroundings) returns 0 and
  leaves the storage as it is: nothing is upserted again. This holds for the SQLite and
  the JSON backend.
\<close>

theorem scrape_hashtag_second_run_stores_nothing:
  assumes "scrape_hashtag e feed max_pages download_images enrich_users s = (s1, Inr n)"
    and "no_write_rejected s s1"
  shows "scrape_hashtag e2 feed max_pages download_images2 enrich_users2 s1 = (s1, Inr 0)
       \<and> (\<exists>fetched. snd (fetch_hashtag_posts feed max_pages) = Inr fetched
            \<and> (\<forall>p \<in> set fetched. \<exists>code. subscript (p_code p) = Some code
                  \<and> code \<in> get_existing_codes s1))"
proof -
  note run = assms(1) and ok = assms(2)
  from run obtain fetched where fetched: "snd (fetch_hashtag_posts feed max_pages) = Inr fetched"
    by (cases "snd (fetch_hashtag_posts feed max_pages)") (simp_all add: scrape_hashtag_def)
  from run fetched obtain new_posts
    where new: "new_posts_of (get_existing_codes s) fetched = Inr new_posts"
    by (cases "new_posts_of (get_existing_codes s) fetched") (simp_all add: scrape_hashtag_def)
  note filter = new_posts_of_filter [OF new]
  have known: "\<forall>p \<in> set fetched. \<exists>code. subscript (p_code p) = Some code
                  \<and> code \<in> get_existing_codes s1"
  proof (cases "new_posts = []")
    case True
    with run fetched new have "s1 = s" by (simp add: scrape_hashtag_def)
    with filter True show ?thesis by simp
  next
    case False
    obtain sa users_seen res where loop: "store_posts e download_images new_posts s [] 0
        = (sa, users_seen, res)"
      by (cases "store_posts e download_images new_posts s [] 0") auto
    with run fetched new False obtain stored where res: "res = Inr stored"
      by (cases res) (simp_all add: scrape_hashtag_def)
    note stored = store_posts_codes [OF loop [unfolded res]]
    have after: "statements sa \<le> statements s1
        \<and> get_existing_codes s1 = get_existing_codes sa"
    proof (cases enrich_users)
      case False
      with run fetched new \<open>new_posts \<noteq> []\<close> loop res show ?thesis
        by (simp add: scrape_hashtag_def)
    next
      case True
      let ?to_enrich = "set_order e (filter (\<lambda>u. Some u \<notin> get_enriched_users sa) users_seen)"
      from run fetched new \<open>new_posts \<noteq> []\<close> loop res True
      have "s1 = fst (enrich e ?to_enrich sa)"
        by (cases "enrich e ?to_enrich sa") (auto simp: scrape_hashtag_def Let_def split: option.splits)
      then show ?thesis by (simp only: enrich_step)
    qed
    from stored have le: "statements s \<le> statements sa" and rej: "rejects sa = rejects s"
      by simp_all
    from after have le1: "statements sa \<le> statements s1" by simp
    note ok_loop = no_write_rejected_part(1) [OF ok le le1 rej]
    from stored ok_loop
    have sa: "get_existing_codes s \<subseteq> get_existing_codes sa"
      "\<forall>p \<in> set new_posts. \<forall>code. subscript (p_code p) = Some code
             \<longrightarrow> code \<in> get_existing_codes sa"
      by simp_all
    from after have "get_existing_codes s1 = get_existing_codes sa" by simp
    with filter sa show ?thesis by blast
  qed
  then have "new_posts_of (get_existing_codes s1) fetched = Inr []"
    by (rule new_posts_of_known)
  with fetched have "scrape_hashtag e2 feed max_pages download_images2 enrich_users2 s1
      = (s1, Inr 0)"
    by (simp add: scrape_hashtag_def)
  with fetched known show ?thesis by blast
qed

text \<open>
  On the feed \<open>feed_two_pages\<close> and an empty SQLite database whose engine rejects nothing,
  the first call stores the two posts of the feed and returns 2; the second call returns
  0 and changes nothing.
\<close>

theorem scrape_hashtag_second_run_stores_nothing_witness:
  "snd (scrape_hashtag env_plain feed_two_pages 20 True True (SQLiteStorage empty_db)) = Inr 2
   \<and> no_write_rejected (SQLiteStorage empty_db)
        (fst (scrape_hashtag env_plain feed_two_pages 20 True True (SQLiteStorage empty_db)))
   \<and> scrape_hashtag env_plain feed_two_pages 20 True True
        (fst (scrape_hashtag env_plain feed_two_pages 20 True True (SQLiteStorage empty_db)))
      = (fst (scrape_hashtag env_plain feed_two_pages 20 True True (SQLiteStorage empty_db)),
         Inr 0)"
proof -
  let ?run = "scrape_hashtag env_plain feed_two_pages 20 True True (SQLiteStorage empty_db)"
  have fetched: "snd (fetch_hashtag_posts feed_two_pages 20)
      = Inr [parse_media media_abc, parse_media media_cy]"
    by (simp add: run_feed feed_two_pages_def page_one_def page_two_def media_abc_def
        media_cy_def)
  have new: "new_posts_of (get_existing_codes (SQLiteStorage empty_db))
        [parse_media media_abc, parse_media media_cy]
      = Inr [parse_media media_abc, parse_media media_cy]"
    by (simp add: parse_media_def media_abc_def media_cy_def sqlite_get_existing_codes_def
        empty_db_def)
  have "snd (snd (store_posts env_plain True [parse_media media_abc, parse_media media_cy]
      (SQLiteStorage empty_db) [] 0)) = Inr 2"
    by (simp add: parse_media_def media_abc_def media_cy_def post_abc_def attach_image_def
        download_image_def env_plain_def empty_db_def Let_def
        sqlite_upsert_post_def sqlite_upsert_user_def bindable_post_def bindable_user_def
        int64_def post_values_def user_values_def minimal_user_def)
  then obtain sa users_seen
    where loop: "store_posts env_plain True [parse_media media_abc, parse_media media_cy]
      (SQLiteStorage empty_db) [] 0 = (sa, users_seen, Inr 2)"
    by (metis prod.collapse)
  have none: "enrich env_plain to_enrich sa = (sa, None)" for to_enrich
    by (induction to_enrich) (simp_all add: env_plain_def)
  have "?run = (sa, Inr 2)"
    by (simp add: scrape_hashtag_def fetched new loop none Let_def
        del: get_existing_codes.simps store_posts.simps new_posts_of.simps enrich.simps)
  then have run: "?run = (fst ?run, Inr 2)" and n: "snd ?run = Inr 2"
    by simp_all
  have ok: "no_write_rejected (SQLiteStorage empty_db) (fst ?run)"
    by (simp add: no_write_rejected_def empty_db_def)
  from scrape_hashtag_second_run_stores_nothing [OF run ok] n ok
  show ?thesis by blast
qed

text \<open>
  Claim C1 as stated fails on the code: \<open>upsert_post\<close> of the SQLite backend returns
  \<open>False\<close> when the database rejects the statement, and \<open>scrape_hashtag\<close> drops that
  flag and counts the post as stored. On \<open>flaky_db\<close>, whose engine rejects the second
  statement, the first call returns 1 without raising and leaves the posts table empty;
  the second call on the same feed stores the post and returns 1.
\<close>

theorem scrape_hashtag_rejected_write_counted:
  "snd (scrape_hashtag env_plain feed_failing 20 True False (SQLiteStorage flaky_db)) = Inr 1
   \<and> get_post_count
        (fst (scrape_hashtag env_plain feed_failing 20 True False (SQLiteStorage flaky_db))) = 0
   \<and> snd (scrape_hashtag env_plain feed_failing 20 True False
        (fst (scrape_hashtag env_plain feed_failing 20 True False (SQLiteStorage flaky_db))))
      = Inr 1
   \<and> get_post_count (fst (scrape_hashtag env_plain feed_failing 20 True False
        (fst (scrape_hashtag env_plain feed_failing 20 True False (SQLiteStorage flaky_db)))))
      = 1"
proof -
  let ?after = "flaky_db\<lparr>users := [user_values (minimal_user ''alice'' post_abc)],
                        executed := 2\<rparr>"
  have fetched: "snd (fetch_hashtag_posts feed_failing 20) = Inr [parse_media media_abc]"
    by (simp add: run_feed feed_failing_def page_one_def media_abc_def)
  have new1: "new_posts_of (get_existing_codes (SQLiteStorage flaky_db)) [parse_media media_abc]
      = Inr [parse_media media_abc]"
    by (simp add: parse_media_def media_abc_def sqlite_get_existing_codes_def
        flaky_db_def empty_db_def)
  have loop1: "store_posts env_plain True [parse_media media_abc] (SQLiteStorage flaky_db) [] 0
      = (SQLiteStorage ?after, [''alice''], Inr 1)"
    by (simp add: parse_media_def media_abc_def post_abc_def attach_image_def
        download_image_def env_plain_def flaky_db_def empty_db_def Let_def
        sqlite_upsert_post_def sqlite_upsert_user_def bindable_post_def bindable_user_def
        int64_def post_values_def user_values_def minimal_user_def users_statement_def
        user_conflict_def)
  have run1: "scrape_hashtag env_plain feed_failing 20 True False (SQLiteStorage flaky_db)
      = (SQLiteStorage ?after, Inr 1)"
    by (simp add: scrape_hashtag_def fetched new1 loop1 Let_def
        del: get_existing_codes.simps store_posts.simps new_posts_of.simps enrich.simps)
  have count1: "get_post_count (SQLiteStorage ?after) = 0"
    by (simp add: sqlite_get_post_count_def flaky_db_def empty_db_def)
  have new2: "new_posts_of (get_existing_codes (SQLiteStorage ?after)) [parse_media media_abc]
      = Inr [parse_media media_abc]"
    by (simp add: parse_media_def media_abc_def sqlite_get_existing_codes_def
        flaky_db_def empty_db_def)
  have loop2: "snd (snd (store_posts env_plain True [parse_media media_abc]
        (SQLiteStorage ?after) [] 0)) = Inr 1
      \<and> get_post_count (fst (store_posts env_plain True [parse_media media_abc]
        (SQLiteStorage ?after) [] 0)) = 1"
    by (simp add: parse_media_def media_abc_def post_abc_def attach_image_def
        download_image_def env_plain_def flaky_db_def empty_db_def Let_def
        sqlite_upsert_post_def sqlite_upsert_user_def bindable_post_def bindable_user_def
        int64_def post_values_def user_values_def minimal_user_def users_statement_def
        user_conflict_def posts_statement_def sqlite_get_post_count_def)
  then obtain sb users_seen
    where loop2': "store_posts env_plain True [parse_media media_abc]
        (SQLiteStorage ?after) [] 0 = (sb, users_seen, Inr 1)"
      and count2: "get_post_count sb = 1"
    by (metis fst_conv prod.collapse)
  have run2: "scrape_hashtag env_plain feed_failing 20 True False (SQLiteStorage ?after)
      = (sb, Inr 1)"
    by (simp add: scrape_hashtag_def fetched new2 loop2' Let_def
        del: get_existing_codes.simps store_posts.simps new_posts_of.simps enrich.simps)
  show ?thesis
    by (simp only: run1 run2 fst_conv snd_conv count1 count2 simp_thms)
qed

section \<open>Properties of the daemon controller\<close>




















end
